theory Spec2Isabelle
  imports Complex_Main "HOL-Library.Multiset"
begin

section \<open>Python values and exceptions\<close>

text \<open>
  The module \<^verbatim>\<open>ivis/ts/_rw.py\<close> is Python. The exceptions it can raise are values of
  the type \<open>error\<close>; a computation that may raise returns \<open>error + 'a\<close>, with \<open>Inl\<close>
  for the exception.
\<close>

datatype error = IndexError | KeyError | TypeError | ValueError | ZeroDivisionError
  | OverflowError | StoreError

section \<open>Interval parsing: \<^verbatim>\<open>logical_delta\<close>\<close>

text \<open>
  A Python \<^verbatim>\<open>str\<close> is modelled as a \<open>string\<close>, one \<open>char\<close> per code point below 256.
  On that range \<^verbatim>\<open>str.isdigit\<close> holds for the ten decimal digits and for the three
  superscript digits U+00B2, U+00B3 and U+00B9; \<^verbatim>\<open>int\<close> accepts the decimal digits only
  and raises \<^verbatim>\<open>ValueError\<close> on the empty string and on a superscript digit. It takes
  any number of digits: the limit that Python 3.11 sets on the length of the string is
  not modelled.
\<close>

definition isdecimal :: "char \<Rightarrow> bool" where
  "isdecimal c = (let n = (of_char c :: nat) in 48 \<le> n \<and> n \<le> 57)"

definition isdigit :: "char \<Rightarrow> bool" where
  "isdigit c = (let n = (of_char c :: nat) in
     (48 \<le> n \<and> n \<le> 57) \<or> n = 178 \<or> n = 179 \<or> n = 185)"

definition digit_value :: "char \<Rightarrow> int" where
  "digit_value c = int (of_char c) - 48"

definition decimal_value :: "string \<Rightarrow> int" where
  "decimal_value s = foldl (\<lambda>a c. 10 * a + digit_value c) 0 s"

definition py_int :: "string \<Rightarrow> error + int" where
  "py_int s =
     (if s = [] \<or> \<not> list_all isdecimal s then Inl ValueError
      else Inr (decimal_value s))"

text \<open>
  A \<^verbatim>\<open>pendulum.Duration\<close> keeps its calendar part (years, months) apart from its exact
  part, which is held here in microseconds. The table \<^verbatim>\<open>intervals\<close> holds the duration
  of each unit.
\<close>

record duration =
  years :: int
  months :: int
  microseconds :: int

definition Duration :: "int \<Rightarrow> int \<Rightarrow> int \<Rightarrow> duration" where
  "Duration y m us = \<lparr>years = y, months = m, microseconds = us\<rparr>"

definition intervals :: "string \<rightharpoonup> duration" where
  "intervals = map_of
     [(''ms'', Duration 0 0 1000),
      (''s'', Duration 0 0 1000000),
      (''m'', Duration 0 0 60000000),
      (''h'', Duration 0 0 3600000000),
      (''d'', Duration 0 0 86400000000),
      (''M'', Duration 0 1 0),
      (''q'', Duration 0 3 0),
      (''y'', Duration 1 0 0)]"

text \<open>
  The clause \<^verbatim>\<open>except KeyError: raise ValueError\<close> around an expression: a
  \<^verbatim>\<open>KeyError\<close> becomes a \<^verbatim>\<open>ValueError\<close>, and every other outcome is as it is.
\<close>

definition except_KeyError :: "error + 'a \<Rightarrow> error + 'a" where
  "except_KeyError r = (if r = Inl KeyError then Inl ValueError else r)"

text \<open>
  The product \<^verbatim>\<open>int(num) * intervals[marker]\<close> is the library's product of an \<^verbatim>\<open>int\<close>
  and a \<^verbatim>\<open>Duration\<close>. It is the parameter \<open>mul\<close>, and it can raise: the library bounds
  the durations it represents and raises \<^verbatim>\<open>OverflowError\<close> beyond. \<^verbatim>\<open>int(num)\<close> is
  evaluated first, then \<^verbatim>\<open>intervals[marker]\<close>, then the product; the whole expression
  is inside the \<^verbatim>\<open>try\<close>. The \<^verbatim>\<open>ValueError\<close> of \<^verbatim>\<open>int\<close> is not caught and leaves the
  function as it is; the \<^verbatim>\<open>KeyError\<close> of the dictionary lookup is turned into a
  \<^verbatim>\<open>ValueError\<close>.
\<close>

definition logical_delta ::
  "(int \<Rightarrow> duration \<Rightarrow> error + duration) \<Rightarrow> string \<Rightarrow> error + duration" where
  "logical_delta mul interval =
     (let num = filter isdigit interval;
          marker = filter (\<lambda>x. \<not> isdigit x) interval
      in except_KeyError
           (case py_int num of
              Inl e \<Rightarrow> Inl e
            | Inr n \<Rightarrow>
                (case intervals marker of
                   None \<Rightarrow> Inl KeyError
                 | Some d \<Rightarrow> mul n d)))"

section \<open>Future timestamps: \<^verbatim>\<open>TsDelta\<close>\<close>

text \<open>
  A \<^verbatim>\<open>TsDelta\<close> is a mutable object. Objects live in a heap, a list indexed by
  address; the constructor appends a new object and returns its address, a method
  takes the heap and the address of \<^verbatim>\<open>self\<close> and returns its result with the new heap.
  A reference is always that of an allocated object, so the properties below are stated
  for addresses within the heap.

  The last timestamp is a \<^verbatim>\<open>pendulum.DateTime\<close> and the delta a \<^verbatim>\<open>pendulum.Duration\<close>.
  The \<^verbatim>\<open>+\<close> of \<^verbatim>\<open>_next_ts\<close> is the library's addition of a duration to a date. It is
  the parameter \<open>add\<close> of the methods that use it, and it can raise: the library keeps
  dates within the years 1 to 9999. When it raises in \<^verbatim>\<open>read\<close>, the assignment to
  \<^verbatim>\<open>self.last_ts\<close> does not happen.
\<close>

record ('t, 'd) TsDelta =
  valid :: bool
  last_ts :: 't
  delta_time :: 'd

type_synonym ('t, 'd) heap = "('t, 'd) TsDelta list"

definition TsDelta_init :: "('t, 'd) heap \<Rightarrow> 't \<Rightarrow> 'd \<Rightarrow> nat \<times> ('t, 'd) heap" where
  "TsDelta_init h ts d =
     (length h, h @ [\<lparr>valid = False, last_ts = ts, delta_time = d\<rparr>])"

definition TsDelta_next_ts :: "('t \<Rightarrow> 'd \<Rightarrow> error + 't) \<Rightarrow> ('t, 'd) TsDelta \<Rightarrow> error + 't" where
  "TsDelta_next_ts add self = add (last_ts self) (delta_time self)"

definition TsDelta_peek ::
  "('t \<Rightarrow> 'd \<Rightarrow> error + 't) \<Rightarrow> ('t, 'd) heap \<Rightarrow> nat \<Rightarrow> (error + 't) \<times> ('t, 'd) heap" where
  "TsDelta_peek add h self = (TsDelta_next_ts add (h ! self), h)"

definition TsDelta_read ::
  "('t \<Rightarrow> 'd \<Rightarrow> error + 't) \<Rightarrow> ('t, 'd) heap \<Rightarrow> nat \<Rightarrow> (error + 't) \<times> ('t, 'd) heap" where
  "TsDelta_read add h self =
     (case TsDelta_next_ts add (h ! self) of
        Inl e \<Rightarrow> (Inl e, h)
      | Inr ts \<Rightarrow>
          (let h' = h[self := (h ! self)\<lparr>last_ts := ts\<rparr>]
           in (Inr (last_ts (h' ! self)), h')))"

definition TsDelta_set_latest :: "('t, 'd) heap \<Rightarrow> nat \<Rightarrow> 't \<Rightarrow> ('t, 'd) heap" where
  "TsDelta_set_latest h self latest_ts = h[self := (h ! self)\<lparr>last_ts := latest_ts\<rparr>]"

definition TsDelta_copy :: "('t, 'd) heap \<Rightarrow> nat \<Rightarrow> nat \<times> ('t, 'd) heap" where
  "TsDelta_copy h self = TsDelta_init h (last_ts (h ! self)) (delta_time (h ! self))"

text \<open>
  A delta of whole months, which is what the \<^verbatim>\<open>'M'\<close> entry of \<^verbatim>\<open>logical_delta\<close>
  gives, is added by the library to a calendar date as follows: the month moves, the
  day of the month is kept, cut to the length of the new month, and a year outside 1
  to 9999 raises \<^verbatim>\<open>ValueError\<close>. \<open>months_add\<close> is that addition, on dates without a time
  of day and deltas given by their number of months.
\<close>

datatype date = Date int int int

definition is_leap :: "int \<Rightarrow> bool" where
  "is_leap y \<longleftrightarrow> y mod 4 = 0 \<and> (y mod 100 \<noteq> 0 \<or> y mod 400 = 0)"

definition days_in_month :: "int \<Rightarrow> int \<Rightarrow> int" where
  "days_in_month y m =
     (if m = 2 then (if is_leap y then 29 else 28)
      else if m = 4 \<or> m = 6 \<or> m = 9 \<or> m = 11 then 30
      else 31)"

fun months_add :: "date \<Rightarrow> int \<Rightarrow> error + date" where
  "months_add (Date y m d) k =
     (let t = 12 * y + (m - 1) + k;
          y' = t div 12;
          m' = t mod 12 + 1
      in if y' < 1 \<or> 9999 < y' then Inl ValueError
         else Inr (Date y' m' (min d (days_in_month y' m'))))"

section \<open>Python lists of numbers\<close>

text \<open>
  Indexing a Python list with a negative index counts from the end; an index outside
  \<open>-len \<dots> len - 1\<close> raises \<^verbatim>\<open>IndexError\<close>. Numbers are exact rationals: the rounding
  of Python's floats is not modelled. A bucket without data has the value \<^verbatim>\<open>None\<close>,
  and arithmetic on \<^verbatim>\<open>None\<close> raises \<^verbatim>\<open>TypeError\<close>.
\<close>

definition py_index :: "nat \<Rightarrow> int \<Rightarrow> nat option" where
  "py_index len i =
     (if 0 \<le> i \<and> i < int len then Some (nat i)
      else if i < 0 \<and> - i \<le> int len then Some (nat (int len + i))
      else None)"

definition py_get :: "'a list \<Rightarrow> int \<Rightarrow> error + 'a" where
  "py_get xs i =
     (case py_index (length xs) i of None \<Rightarrow> Inl IndexError | Some k \<Rightarrow> Inr (xs ! k))"

definition py_set :: "'a list \<Rightarrow> int \<Rightarrow> 'a \<Rightarrow> error + 'a list" where
  "py_set xs i v =
     (case py_index (length xs) i of None \<Rightarrow> Inl IndexError | Some k \<Rightarrow> Inr (xs[k := v]))"

definition py_pop :: "'a list \<Rightarrow> error + 'a list" where
  "py_pop xs = (if xs = [] then Inl IndexError else Inr (butlast xs))"

definition py_sub :: "rat option \<Rightarrow> rat option \<Rightarrow> error + rat" where
  "py_sub a b = (case (a, b) of (Some x, Some y) \<Rightarrow> Inr (x - y) | _ \<Rightarrow> Inl TypeError)"

definition py_add :: "rat option \<Rightarrow> rat \<Rightarrow> error + rat" where
  "py_add a y = (case a of Some x \<Rightarrow> Inr (x + y) | None \<Rightarrow> Inl TypeError)"

definition py_truediv :: "rat \<Rightarrow> int \<Rightarrow> error + rat" where
  "py_truediv x n = (if n = 0 then Inl ZeroDivisionError else Inr (x / of_int n))"

section \<open>Gap interpolation: \<^verbatim>\<open>linear_interp\<close>\<close>

text \<open>
  The search for the first non-empty bucket after \<open>i\<close>: \<open>j\<close> stays \<open>-1\<close> when the
  loop over \<^verbatim>\<open>range(i+1, len(data))\<close> finds none.
\<close>

definition find_nonempty :: "rat option list \<Rightarrow> nat \<Rightarrow> int" where
  "find_nonempty data i =
     (case List.find (\<lambda>k. data ! k \<noteq> None) [i + 1 ..< length data] of
        None \<Rightarrow> - 1
      | Some k \<Rightarrow> int k)"

text \<open>The loop \<^verbatim>\<open>for m in range(i, j): data[m] = data[m - 1] + step\<close>, over its indices.\<close>

fun fill_run :: "rat \<Rightarrow> nat list \<Rightarrow> rat option list \<Rightarrow> error + rat option list" where
  "fill_run step [] data = Inr data"
| "fill_run step (m # ms) data =
     (case py_get data (int m - 1) of
        Inl e \<Rightarrow> Inl e
      | Inr prev \<Rightarrow>
          (case py_add prev step of
             Inl e \<Rightarrow> Inl e
           | Inr v \<Rightarrow>
               (case py_set data (int m) (Some v) of
                  Inl e \<Rightarrow> Inl e
                | Inr data' \<Rightarrow> fill_run step ms data')))"

text \<open>The body of \<^verbatim>\<open>if data[i] == None\<close>. \<^verbatim>\<open>range(i, j)\<close> is empty when \<open>j \<le> i\<close>.\<close>

definition interp_gap :: "nat \<Rightarrow> rat option list \<Rightarrow> error + rat option list" where
  "interp_gap i data =
     (let j = find_nonempty data i in
      case py_get data (int i - 1) of
        Inl e \<Rightarrow> Inl e
      | Inr left \<Rightarrow>
          (case py_get data j of
             Inl e \<Rightarrow> Inl e
           | Inr right \<Rightarrow>
               (case py_sub right left of
                  Inl e \<Rightarrow> Inl e
                | Inr diff \<Rightarrow>
                    (case py_truediv diff (j - int i + 1) of
                       Inl e \<Rightarrow> Inl e
                     | Inr step \<Rightarrow> fill_run step [i ..< nat j] data))))"

text \<open>The outer loop \<^verbatim>\<open>for i in range(len(data))\<close>, over its indices.\<close>

fun interp_loop :: "nat list \<Rightarrow> rat option list \<Rightarrow> error + rat option list" where
  "interp_loop [] data = Inr data"
| "interp_loop (i # is) data =
     (case py_get data (int i) of
        Inl e \<Rightarrow> Inl e
      | Inr x \<Rightarrow>
          if x = None then
            (case interp_gap i data of
               Inl e \<Rightarrow> Inl e
             | Inr data' \<Rightarrow> interp_loop is data')
          else interp_loop is data)"

text \<open>
  \<^verbatim>\<open>linear_interp\<close> changes its argument in place and returns nothing; the model
  returns the list as it is after the call.
\<close>

definition linear_interp :: "rat option list \<Rightarrow> error + rat option list" where
  "linear_interp data = interp_loop [0 ..< length data] data"

section \<open>Cadence estimation: \<^verbatim>\<open>estimate_delta\<close>\<close>

text \<open>
  A \<^verbatim>\<open>pendulum.DateTime\<close> is modelled by its \<^verbatim>\<open>float_timestamp\<close>, its distance from
  the epoch in seconds, and a duration of seconds by the number of seconds; both are
  exact rationals. \<^verbatim>\<open>timestamps[:sample_size]\<close> is a Python slice, which counts a
  negative bound from the end.
\<close>

definition py_slice_to :: "'a list \<Rightarrow> int \<Rightarrow> 'a list" where
  "py_slice_to xs n =
     (if n < 0 then take (length xs - nat (- n)) xs else take (nat n) xs)"

definition float_timestamp :: "rat \<Rightarrow> rat" where
  "float_timestamp x = x"

text \<open>
  \<^verbatim>\<open>numpy.median\<close> sorts its argument and returns the middle element, or the mean of
  the two middle elements when their number is even. For an empty argument it returns
  NaN, which is \<open>None\<close> here.
\<close>

definition np_median :: "rat list \<Rightarrow> rat option" where
  "np_median xs =
     (let s = sort xs; n = length s in
      if n = 0 then None
      else if odd n then Some (s ! (n div 2))
      else Some ((s ! (n div 2 - 1) + s ! (n div 2)) / 2))"

definition differences :: "rat list \<Rightarrow> rat list" where
  "differences timestamps =
     map (\<lambda>x. fst x - snd x) (zip (tl timestamps) (butlast timestamps))"

text \<open>
  \<^verbatim>\<open>timestamps[-1]\<close> raises \<^verbatim>\<open>IndexError\<close> on an empty list. \<^verbatim>\<open>pendulum.duration\<close>
  builds a \<^verbatim>\<open>datetime.timedelta\<close>, which rejects NaN seconds with \<^verbatim>\<open>ValueError\<close>.
  The new \<^verbatim>\<open>TsDelta\<close> object is allocated in the heap.
\<close>

definition estimate_delta ::
  "(rat, rat) heap \<Rightarrow> rat list \<Rightarrow> int \<Rightarrow> error + nat \<times> (rat, rat) heap" where
  "estimate_delta h timestamps sample_size =
     (case py_get timestamps (- 1) of
        Inl e \<Rightarrow> Inl e
      | Inr last_ts' \<Rightarrow>
          (let timestamps' = py_slice_to timestamps sample_size;
               timestamps'' = map float_timestamp timestamps'
           in case np_median (differences timestamps'') of
                None \<Rightarrow> Inl ValueError
              | Some median \<Rightarrow> Inr (TsDelta_init h last_ts' median)))"

section \<open>Paged reading: \<^verbatim>\<open>TsReader\<close>\<close>

text \<open>
  Field values that come from the store, and the bounds a reader is built with, are
  dynamically typed. A hit is a dictionary from field names to values; reading a field
  that a hit does not have raises \<^verbatim>\<open>KeyError\<close>.
\<close>

datatype pyval = PyNone | PyStr string | PyNum rat

fun truthy :: "pyval \<Rightarrow> bool" where
  "truthy PyNone = False"
| "truthy (PyStr s) = (s \<noteq> [])"
| "truthy (PyNum x) = (x \<noteq> 0)"

type_synonym hit = "string \<rightharpoonup> pyval"

definition py_lookup :: "('k \<rightharpoonup> 'v) \<Rightarrow> 'k \<Rightarrow> error + 'v" where
  "py_lookup m k = (case m k of None \<Rightarrow> Inl KeyError | Some v \<Rightarrow> Inr v)"

text \<open>Applying a function that may raise to every element, up to the first exception.\<close>

fun map_raise :: "('a \<Rightarrow> error + 'b) \<Rightarrow> 'a list \<Rightarrow> error + 'b list" where
  "map_raise f [] = Inr []"
| "map_raise f (x # xs) =
     (case f x of
        Inl e \<Rightarrow> Inl e
      | Inr y \<Rightarrow> (case map_raise f xs of Inl e \<Rightarrow> Inl e | Inr ys \<Rightarrow> Inr (y # ys)))"

record TsReader =
  index_name :: string
  ts_field :: string
  value_field :: string
  latest_ts :: pyval
  from_ts :: pyval
  to_ts :: pyval

definition TsReader_init :: "string \<Rightarrow> string \<Rightarrow> string \<Rightarrow> pyval \<Rightarrow> pyval \<Rightarrow> TsReader" where
  "TsReader_init index_name' ts_field' value_field' from_ts' to_ts' =
     \<lparr>index_name = index_name', ts_field = ts_field', value_field = value_field',
      latest_ts = PyNone, from_ts = from_ts', to_ts = to_ts'\<rparr>"

definition TsReader_set_latest :: "TsReader \<Rightarrow> pyval \<Rightarrow> TsReader" where
  "TsReader_set_latest self ts = self\<lparr>latest_ts := ts\<rparr>"

text \<open>
  The search object: an index, the field it is sorted by (ascending), and the range
  filters added to it, each a field, a comparison and a bound.
\<close>

datatype range_op = Gte | Lt | Gt

record search =
  s_index :: string
  s_sort :: string
  s_filters :: "(string \<times> range_op \<times> pyval) list"

definition search_filter :: "search \<Rightarrow> string \<Rightarrow> range_op \<Rightarrow> pyval \<Rightarrow> search" where
  "search_filter s field op bound = s\<lparr>s_filters := s_filters s @ [(field, op, bound)]\<rparr>"

definition build_search :: "TsReader \<Rightarrow> search" where
  "build_search self =
     (let s = \<lparr>s_index = index_name self, s_sort = ts_field self, s_filters = []\<rparr>;
          s = (if truthy (from_ts self) then search_filter s (ts_field self) Gte (from_ts self)
               else s);
          s = (if truthy (to_ts self) then search_filter s (ts_field self) Lt (to_ts self)
               else s);
          s = (if truthy (latest_ts self) then search_filter s (ts_field self) Gt (latest_ts self)
               else s)
      in s)"

definition batch_size :: nat where
  "batch_size = 10000"

text \<open>
  The store is a function \<open>execute\<close>: given the search and the bounds of the slice
  \<^verbatim>\<open>s[lo:hi]\<close>, it returns the hits of that page or raises. The loop
  \<^verbatim>\<open>while True\<close> has no bound of its own, so the model returns an \<open>option\<close>: \<open>None\<close>
  is a loop that never ends. The third component of the result is the final value of
  \<open>i\<close>, the number of pages requested.
\<close>

partial_function (option) read_pages ::
  "(nat \<Rightarrow> nat \<Rightarrow> error + hit list) \<Rightarrow> string \<Rightarrow> string \<Rightarrow> nat \<Rightarrow> pyval list \<Rightarrow> pyval list
     \<Rightarrow> (error + pyval list \<times> pyval list \<times> nat) option" where
  "read_pages execute tsf vf i timestamps values =
     (case execute (i * batch_size) ((i + 1) * batch_size) of
        Inl e \<Rightarrow> Some (Inl e)
      | Inr res \<Rightarrow>
          (case map_raise (\<lambda>x. py_lookup x tsf) res of
             Inl e \<Rightarrow> Some (Inl e)
           | Inr new_ts \<Rightarrow>
               (case map_raise (\<lambda>x. py_lookup x vf) res of
                  Inl e \<Rightarrow> Some (Inl e)
                | Inr new_vs \<Rightarrow>
                    if length res < batch_size
                    then Some (Inr (timestamps @ new_ts, values @ new_vs, i + 1))
                    else read_pages execute tsf vf (i + 1)
                           (timestamps @ new_ts) (values @ new_vs))))"

text \<open>
  \<^verbatim>\<open>_read\<close>. \<^verbatim>\<open>_string2date\<close> is \<^verbatim>\<open>pendulum.from_format\<close> with the fixed format; it is
  a parameter, and may raise. An exception leaves the reader object as it is at that
  moment, so the result is the outcome together with the reader.
\<close>

definition TsReader_read ::
  "(search \<Rightarrow> nat \<Rightarrow> nat \<Rightarrow> error + hit list) \<Rightarrow> (pyval \<Rightarrow> error + 'd) \<Rightarrow> TsReader
     \<Rightarrow> ((error + 'd list \<times> pyval list) \<times> TsReader) option" where
  "TsReader_read execute string2date self =
     (case read_pages (execute (build_search self)) (ts_field self) (value_field self) 0 [] [] of
        None \<Rightarrow> None
      | Some (Inl e) \<Rightarrow> Some (Inl e, self)
      | Some (Inr (timestamps, values, i)) \<Rightarrow>
          (let self' = (if length timestamps > 0
                        then TsReader_set_latest self (last timestamps) else self)
           in case map_raise string2date timestamps of
                Inl e \<Rightarrow> Some (Inl e, self')
              | Inr timestamps' \<Rightarrow> Some (Inr (timestamps', values), self')))"

text \<open>
  Two stores. \<open>paged rows\<close> answers every search with the pages of one fixed sequence of
  hits. \<open>index_store\<close> is an index of documents, each a timestamp and a value, read
  through a function \<open>key\<close> that gives the instant a timestamp value stands for: a
  search returns the documents that pass all its range filters, sorted by instant when
  the search sorts by the timestamp field. A filter on another field matches no
  document. Neither store ever raises.
\<close>

definition paged :: "hit list \<Rightarrow> nat \<Rightarrow> nat \<Rightarrow> error + hit list" where
  "paged rows lo hi = Inr (take (hi - lo) (drop lo rows))"

fun range_holds :: "range_op \<Rightarrow> ('k::linorder) \<Rightarrow> 'k \<Rightarrow> bool" where
  "range_holds Gte t b = (b \<le> t)"
| "range_holds Lt t b = (t < b)"
| "range_holds Gt t b = (b < t)"

definition doc_matches ::
  "(pyval \<Rightarrow> 'k::linorder) \<Rightarrow> string \<Rightarrow> search \<Rightarrow> pyval \<times> pyval \<Rightarrow> bool" where
  "doc_matches key tsf s d =
     list_all (\<lambda>(field, op, bound). field = tsf \<and> range_holds op (key (fst d)) (key bound))
       (s_filters s)"

definition doc_hit :: "string \<Rightarrow> string \<Rightarrow> pyval \<times> pyval \<Rightarrow> hit" where
  "doc_hit tsf vf d = [tsf \<mapsto> fst d, vf \<mapsto> snd d]"

definition index_rows ::
  "(pyval \<Rightarrow> 'k::linorder) \<Rightarrow> string \<Rightarrow> (pyval \<times> pyval) list \<Rightarrow> search \<Rightarrow> (pyval \<times> pyval) list" where
  "index_rows key tsf docs s =
     (let found = filter (doc_matches key tsf s) docs
      in if s_sort s = tsf then sort_key (\<lambda>d. key (fst d)) found else found)"

definition index_store ::
  "(pyval \<Rightarrow> 'k::linorder) \<Rightarrow> string \<Rightarrow> string \<Rightarrow> (pyval \<times> pyval) list
     \<Rightarrow> search \<Rightarrow> nat \<Rightarrow> nat \<Rightarrow> error + hit list" where
  "index_store key tsf vf docs s lo hi =
     paged (map (doc_hit tsf vf) (index_rows key tsf docs s)) lo hi"

section \<open>Bucket resampling: \<^verbatim>\<open>read_ts_resampled2\<close>\<close>

text \<open>
  \<^verbatim>\<open>read_ts_test\<close> builds an aggregation query from the start timestamp and asks the
  store; of its arguments only the start timestamp changes between calls. The store is
  a function \<open>search\<close> from the start timestamp to the buckets of the date histogram,
  each a timestamp and a value, or to an exception. \<^verbatim>\<open>read_ts_test\<close> returns the values
  and the timestamps of the buckets as two lists.
\<close>

definition read_ts_test ::
  "('t \<Rightarrow> error + ('t \<times> 'v) list) \<Rightarrow> 't \<Rightarrow> error + 'v list \<times> 't list" where
  "read_ts_test search start_ts =
     (case search start_ts of
        Inl e \<Rightarrow> Inl e
      | Inr buckets \<Rightarrow> Inr (map snd buckets, map fst buckets))"

text \<open>
  The loop of \<^verbatim>\<open>read_ts_resampled2\<close>, over any function \<open>fetch\<close> in the place of
  \<^verbatim>\<open>read_ts_test\<close>. The loop is \<^verbatim>\<open>while True\<close>, so its result is an \<open>option\<close>.
\<close>

partial_function (option) resample_loop ::
  "('t \<Rightarrow> error + 'v list \<times> 't list) \<Rightarrow> 't \<Rightarrow> 'v list \<Rightarrow> 't list
     \<Rightarrow> (error + 't list \<times> 'v list) option" where
  "resample_loop fetch first_ts vs ts =
     (case fetch first_ts of
        Inl e \<Rightarrow> Some (Inl e)
      | Inr (nvs, nts) \<Rightarrow>
          if length nts > 1 then
            (case py_pop nvs of
               Inl e \<Rightarrow> Some (Inl e)
             | Inr nvs' \<Rightarrow>
                 resample_loop fetch (last nts) (vs @ nvs') (ts @ butlast nts))
          else Some (Inr (ts @ nts, vs @ nvs)))"

text \<open>
  \<^verbatim>\<open>read_ts_resampled2\<close>: \<open>get_first_ts\<close> is the result of the call that asks the store
  for the first timestamp.
\<close>

definition read_ts_resampled2 ::
  "(error + 't) \<Rightarrow> ('t \<Rightarrow> error + ('t \<times> rat option) list)
     \<Rightarrow> (error + 't list \<times> rat option list) option" where
  "read_ts_resampled2 get_first_ts search =
     (case get_first_ts of
        Inl e \<Rightarrow> Some (Inl e)
      | Inr first_ts \<Rightarrow>
          (case resample_loop (read_ts_test search) first_ts [] [] of
             None \<Rightarrow> None
           | Some (Inl e) \<Rightarrow> Some (Inl e)
           | Some (Inr (ts, vs)) \<Rightarrow>
               (case linear_interp vs of
                  Inl e \<Rightarrow> Some (Inl e)
                | Inr vs' \<Rightarrow> Some (Inr (ts, vs')))))"

text \<open>
  The start timestamps of the requests the loop makes, and the answers to them:
  request \<open>n + 1\<close> starts at the last bucket timestamp of answer \<open>n\<close>.
\<close>

primrec request_ts :: "('t \<Rightarrow> error + 'v list \<times> 't list) \<Rightarrow> 't \<Rightarrow> nat \<Rightarrow> 't" where
  "request_ts fetch first_ts 0 = first_ts"
| "request_ts fetch first_ts (Suc n) =
     (case fetch (request_ts fetch first_ts n) of
        Inl e \<Rightarrow> request_ts fetch first_ts n
      | Inr (nvs, nts) \<Rightarrow>
          if nts = [] then request_ts fetch first_ts n else last nts)"

definition response :: "('t \<Rightarrow> error + 'v list \<times> 't list) \<Rightarrow> 't \<Rightarrow> nat \<Rightarrow> error + 'v list \<times> 't list" where
  "response fetch first_ts n = fetch (request_ts fetch first_ts n)"

section \<open>Specification predicates\<close>

text \<open>
  What interpolation promises for the gaps of \<open>data\<close> that begin at position \<open>lo\<close> or
  later. A gap lies between two present values, \<open>l\<close> at position \<open>a\<close> and \<open>r\<close> at
  position \<open>b\<close>, with nothing present in between; in \<open>out\<close> the positions of the gap
  hold the values of the straight line from \<open>l\<close> to \<open>r\<close>.
\<close>

definition gaps_filled :: "nat \<Rightarrow> rat option list \<Rightarrow> rat option list \<Rightarrow> bool" where
  "gaps_filled lo data out \<longleftrightarrow>
     (\<forall>a b l r. lo \<le> a \<and> a < b \<and> b < length data \<and> data ! a = Some l \<and> data ! b = Some r
        \<and> (\<forall>k. a < k \<and> k < b \<longrightarrow> data ! k = None)
      \<longrightarrow> (\<forall>k. a < k \<and> k < b \<longrightarrow>
             out ! k = Some (l + of_nat (k - a) * ((r - l) / of_nat (b - a)))))"

text \<open>
  A median of a list: at least half of the elements are not above it and at least half
  are not below it.
\<close>

definition is_median :: "rat \<Rightarrow> rat list \<Rightarrow> bool" where
  "is_median m xs \<longleftrightarrow>
     length xs \<le> 2 * length (filter (\<lambda>x. x \<le> m) xs)
     \<and> length xs \<le> 2 * length (filter (\<lambda>x. m \<le> x) xs)"

text \<open>
  Timestamps 60 seconds apart from \<open>t0\<close> on, but for one step of 180 seconds, from
  sample \<open>p\<close> to sample \<open>p + 1\<close>.
\<close>

definition spaced :: "rat \<Rightarrow> nat \<Rightarrow> nat \<Rightarrow> rat" where
  "spaced t0 p k = t0 + 60 * of_nat k + (if p < k then 120 else 0)"

text \<open>
  The \<open>k\<close>-th page request of the reading loop and what the loop reads from a page;
  a short page holds fewer hits than the page size.
\<close>

definition page :: "(nat \<Rightarrow> nat \<Rightarrow> error + hit list) \<Rightarrow> nat \<Rightarrow> error + hit list" where
  "page execute k = execute (k * batch_size) ((k + 1) * batch_size)"

definition fields_of :: "string \<Rightarrow> hit list \<Rightarrow> error + pyval list" where
  "fields_of f res = map_raise (\<lambda>x. py_lookup x f) res"

definition short_page :: "(nat \<Rightarrow> nat \<Rightarrow> error + hit list) \<Rightarrow> nat \<Rightarrow> bool" where
  "short_page execute k =
     (case page execute k of Inl e \<Rightarrow> False | Inr res \<Rightarrow> length res < batch_size)"

text \<open>Page \<open>k\<close> ends the loop: the request fails, a hit lacks a field, or the page is short.\<close>

definition page_stops :: "(nat \<Rightarrow> nat \<Rightarrow> error + hit list) \<Rightarrow> string \<Rightarrow> string \<Rightarrow> nat \<Rightarrow> bool" where
  "page_stops execute tsf vf k =
     (case page execute k of
        Inl e \<Rightarrow> True
      | Inr res \<Rightarrow> isl (fields_of tsf res) \<or> isl (fields_of vf res) \<or> length res < batch_size)"

text \<open>
  The bucket timestamps and the bucket values of a response, and what ends the
  resampling loop at request \<open>n\<close>: an exception, a response of at most one bucket, or
  \<^verbatim>\<open>pop\<close> on an empty list of values.
\<close>

definition resp_ts :: "error + 'v list \<times> 't list \<Rightarrow> 't list" where
  "resp_ts r = (case r of Inl e \<Rightarrow> [] | Inr (nvs, nts) \<Rightarrow> nts)"

definition resp_vs :: "error + 'v list \<times> 't list \<Rightarrow> 'v list" where
  "resp_vs r = (case r of Inl e \<Rightarrow> [] | Inr (nvs, nts) \<Rightarrow> nvs)"

definition response_stops :: "('t \<Rightarrow> error + 'v list \<times> 't list) \<Rightarrow> 't \<Rightarrow> nat \<Rightarrow> bool" where
  "response_stops fetch first_ts n =
     (case response fetch first_ts n of
        Inl e \<Rightarrow> True
      | Inr (nvs, nts) \<Rightarrow> \<not> 1 < length nts \<or> nvs = [])"

text \<open>
  The lists \<open>f 0, \<dots>, f n\<close> put together, each but the last without its last
  element.
\<close>

definition stitched :: "(nat \<Rightarrow> 'a list) \<Rightarrow> nat \<Rightarrow> 'a list" where
  "stitched f n = concat (map (\<lambda>k. butlast (f k)) [0 ..< n]) @ f n"

section \<open>Properties of the interval parser\<close>

lemmas parse_defs = logical_delta_def isdigit_def py_int_def isdecimal_def digit_value_def
  decimal_value_def intervals_def except_KeyError_def Duration_def

lemma filter_isdigit_normal:
  "filter isdigit (filter isdigit s @ filter (\<lambda>x. \<not> isdigit x) s) = filter isdigit s"
  "filter (\<lambda>x. \<not> isdigit x) (filter isdigit s @ filter (\<lambda>x. \<not> isdigit x) s)
     = filter (\<lambda>x. \<not> isdigit x) s"
  by (induction s) auto

text \<open>
  What \<^verbatim>\<open>logical_delta\<close> does with a string that parses, and with one that does not.
\<close>

lemma logical_delta_product:
  assumes "filter isdigit s \<noteq> []" "list_all isdecimal (filter isdigit s)"
    and "intervals (filter (\<lambda>x. \<not> isdigit x) s) = Some d"
  shows "logical_delta mul s = except_KeyError (mul (decimal_value (filter isdigit s)) d)"
  using assms by (simp add: logical_delta_def py_int_def)

lemma logical_delta_no_parse:
  assumes "filter isdigit s = [] \<or> \<not> list_all isdecimal (filter isdigit s)
      \<or> intervals (filter (\<lambda>x. \<not> isdigit x) s) = None"
  shows "logical_delta mul s = Inl ValueError"
  using assms by (auto simp: logical_delta_def py_int_def except_KeyError_def Let_def)

text \<open>
  Claim C7. \<^verbatim>\<open>logical_delta("15m")\<close> is the product of 15 and the duration of one minute,
  and \<^verbatim>\<open>logical_delta("1M")\<close> the product of 1 and the duration of one month. For every
  string, the result is that of the string with all its digit characters first, in the
  order met, followed by all its other characters, in the order met; so \<^verbatim>\<open>"1M0"\<close>
  parses like \<^verbatim>\<open>"10M"\<close>, to the product of 10 and the duration of one month. Whenever
  the digits are decimal digits, at least one, and the other characters form a marker
  of the table, the result is the product of the decimal value of the digits and the
  duration of the marker: the duration the library returns for it, or the exception it
  raises.
\<close>

theorem logical_delta_parses:
  "logical_delta mul ''15m'' = except_KeyError (mul 15 (Duration 0 0 60000000))
   \<and> logical_delta mul ''1M'' = except_KeyError (mul 1 (Duration 0 1 0))
   \<and> logical_delta mul ''1M0'' = logical_delta mul ''10M''
   \<and> logical_delta mul ''1M0'' = except_KeyError (mul 10 (Duration 0 1 0))
   \<and> logical_delta mul s = logical_delta mul (filter isdigit s @ filter (\<lambda>x. \<not> isdigit x) s)
   \<and> (filter isdigit s \<noteq> [] \<and> list_all isdecimal (filter isdigit s)
        \<and> intervals (filter (\<lambda>x. \<not> isdigit x) s) = Some d
      \<longrightarrow> logical_delta mul s = except_KeyError (mul (decimal_value (filter isdigit s)) d)
          \<and> (\<forall>r. mul (decimal_value (filter isdigit s)) d = Inr r \<longrightarrow> logical_delta mul s = Inr r))"
proof (intro conjI impI allI)
  show "logical_delta mul ''15m'' = except_KeyError (mul 15 (Duration 0 0 60000000))"
    by (simp add: logical_delta_def isdigit_def py_int_def isdecimal_def digit_value_def
        decimal_value_def intervals_def)
  show "logical_delta mul ''1M'' = except_KeyError (mul 1 (Duration 0 1 0))"
    by (simp add: logical_delta_def isdigit_def py_int_def isdecimal_def digit_value_def
        decimal_value_def intervals_def)
  show "logical_delta mul ''1M0'' = logical_delta mul ''10M''"
    by (simp add: logical_delta_def isdigit_def py_int_def isdecimal_def digit_value_def
        decimal_value_def intervals_def)
  show "logical_delta mul ''1M0'' = except_KeyError (mul 10 (Duration 0 1 0))"
    by (simp add: logical_delta_def isdigit_def py_int_def isdecimal_def digit_value_def
        decimal_value_def intervals_def)
  show "logical_delta mul s = logical_delta mul (filter isdigit s @ filter (\<lambda>x. \<not> isdigit x) s)"
    unfolding logical_delta_def Let_def filter_isdigit_normal ..
next
  assume a: "filter isdigit s \<noteq> [] \<and> list_all isdecimal (filter isdigit s)
        \<and> intervals (filter (\<lambda>x. \<not> isdigit x) s) = Some d"
  then show p: "logical_delta mul s = except_KeyError (mul (decimal_value (filter isdigit s)) d)"
    by (intro logical_delta_product) simp_all
  fix r assume "mul (decimal_value (filter isdigit s)) d = Inr r"
  with p show "logical_delta mul s = Inr r" by (simp add: except_KeyError_def)
qed

text \<open>
  With a product that scales the three parts of a duration, \<^verbatim>\<open>"1M0"\<close> gives ten months.
\<close>

theorem logical_delta_parses_witness:
  "logical_delta
     (\<lambda>n d. Inr \<lparr>years = n * years d, months = n * months d, microseconds = n * microseconds d\<rparr>)
     ''1M0''
   = Inr \<lparr>years = 0, months = 10, microseconds = 0\<rparr>"
  using logical_delta_parses [where s = "''1M0''" and d = "Duration 0 1 0" and mul =
      "\<lambda>n d. Inr \<lparr>years = n * years d, months = n * months d, microseconds = n * microseconds d\<rparr>"]
  by (simp add: parse_defs)

text \<open>
  Claim C8. \<^verbatim>\<open>logical_delta\<close> raises \<^verbatim>\<open>ValueError\<close> when the string has no digit
  character, or one that is not a decimal digit, or when its other characters are not a
  marker of the table. It raises \<^verbatim>\<open>ValueError\<close> in these cases only, unless the
  library's product itself raises \<^verbatim>\<open>ValueError\<close> or \<^verbatim>\<open>KeyError\<close>; it never raises
  \<^verbatim>\<open>KeyError\<close>, and any other exception it raises is one the product of the parsed
  number and unit raised. So with a product that raises nothing but \<^verbatim>\<open>OverflowError\<close>,
  \<^verbatim>\<open>logical_delta\<close> raises \<^verbatim>\<open>ValueError\<close> exactly in the three cases above, and neither
  \<^verbatim>\<open>IndexError\<close>, \<^verbatim>\<open>KeyError\<close>, \<^verbatim>\<open>TypeError\<close>, \<^verbatim>\<open>ZeroDivisionError\<close> nor an
  exception of the store. In particular it fails on the empty string, on \<^verbatim>\<open>"abc"\<close> and
  on an unknown marker such as \<^verbatim>\<open>"15x"\<close>.
\<close>

theorem logical_delta_fails:
  "(filter isdigit s = [] \<or> \<not> list_all isdecimal (filter isdigit s)
      \<or> intervals (filter (\<lambda>x. \<not> isdigit x) s) = None
     \<longrightarrow> logical_delta mul s = Inl ValueError)
   \<and> (logical_delta mul s = Inl ValueError \<longleftrightarrow>
        filter isdigit s = [] \<or> \<not> list_all isdecimal (filter isdigit s)
        \<or> intervals (filter (\<lambda>x. \<not> isdigit x) s) = None
        \<or> (\<exists>d. intervals (filter (\<lambda>x. \<not> isdigit x) s) = Some d
              \<and> (mul (decimal_value (filter isdigit s)) d = Inl ValueError
                  \<or> mul (decimal_value (filter isdigit s)) d = Inl KeyError)))
   \<and> logical_delta mul s \<noteq> Inl KeyError
   \<and> (logical_delta mul s = Inl e \<and> e \<noteq> ValueError \<longrightarrow>
        filter isdigit s \<noteq> [] \<and> list_all isdecimal (filter isdigit s)
        \<and> (\<exists>d. intervals (filter (\<lambda>x. \<not> isdigit x) s) = Some d
              \<and> mul (decimal_value (filter isdigit s)) d = Inl e))
   \<and> ((\<forall>n d e. mul n d = Inl e \<longrightarrow> e = OverflowError) \<longrightarrow>
        (logical_delta mul s = Inl ValueError \<longleftrightarrow>
           filter isdigit s = [] \<or> \<not> list_all isdecimal (filter isdigit s)
           \<or> intervals (filter (\<lambda>x. \<not> isdigit x) s) = None)
        \<and> logical_delta mul s \<notin> {Inl IndexError, Inl KeyError, Inl TypeError,
             Inl ZeroDivisionError, Inl StoreError})
   \<and> logical_delta mul '''' = Inl ValueError
   \<and> logical_delta mul ''abc'' = Inl ValueError
   \<and> logical_delta mul ''15x'' = Inl ValueError"
proof (intro conjI impI)
  let ?num = "filter isdigit s" and ?marker = "filter (\<lambda>x. \<not> isdigit x) s"
  let ?fail = "?num = [] \<or> \<not> list_all isdecimal ?num \<or> intervals ?marker = None"
  show "logical_delta mul s = Inl ValueError" if ?fail
    using that by (rule logical_delta_no_parse)
  show "logical_delta mul s = Inl ValueError \<longleftrightarrow>
        ?num = [] \<or> \<not> list_all isdecimal ?num \<or> intervals ?marker = None
        \<or> (\<exists>d. intervals ?marker = Some d
              \<and> (mul (decimal_value ?num) d = Inl ValueError
                  \<or> mul (decimal_value ?num) d = Inl KeyError))"
  proof (cases ?fail)
    case True
    then show ?thesis using logical_delta_no_parse [OF True, of mul] by blast
  next
    case False
    then obtain d where d: "intervals ?marker = Some d" by auto
    from False d have "logical_delta mul s = except_KeyError (mul (decimal_value ?num) d)"
      by (intro logical_delta_product) simp_all
    with False d show ?thesis by (auto simp: except_KeyError_def)
  qed
  show "logical_delta mul s \<noteq> Inl KeyError"
    by (auto simp: logical_delta_def py_int_def except_KeyError_def Let_def
        split: option.splits if_splits)
  show "logical_delta mul '''' = Inl ValueError"
    by (intro logical_delta_no_parse) simp
  show "logical_delta mul ''abc'' = Inl ValueError"
    by (intro logical_delta_no_parse) (simp add: isdigit_def)
  show "logical_delta mul ''15x'' = Inl ValueError"
    by (intro logical_delta_no_parse) (simp add: isdigit_def intervals_def)
next
  let ?num = "filter isdigit s" and ?marker = "filter (\<lambda>x. \<not> isdigit x) s"
  let ?fail = "?num = [] \<or> \<not> list_all isdecimal ?num \<or> intervals ?marker = None"
  assume a: "logical_delta mul s = Inl e \<and> e \<noteq> ValueError"
  have nf: "\<not> ?fail"
  proof
    assume ?fail
    then have "logical_delta mul s = Inl ValueError" by (rule logical_delta_no_parse)
    with a show False by auto
  qed
  then show "?num \<noteq> []" and "list_all isdecimal ?num" by simp_all
  from nf obtain d where d: "intervals ?marker = Some d" by auto
  from nf d have "logical_delta mul s = except_KeyError (mul (decimal_value ?num) d)"
    by (intro logical_delta_product) simp_all
  with a have "mul (decimal_value ?num) d = Inl e"
    by (auto simp: except_KeyError_def split: if_splits)
  with d show "\<exists>d. intervals ?marker = Some d \<and> mul (decimal_value ?num) d = Inl e"
    by blast
next
  let ?num = "filter isdigit s" and ?marker = "filter (\<lambda>x. \<not> isdigit x) s"
  let ?fail = "?num = [] \<or> \<not> list_all isdecimal ?num \<or> intervals ?marker = None"
  assume lib: "\<forall>n d e. mul n d = Inl e \<longrightarrow> e = OverflowError"
  have ok: "logical_delta mul s = mul (decimal_value ?num) d"
    if "\<not> ?fail" "intervals ?marker = Some d" for d
  proof -
    from that have "logical_delta mul s = except_KeyError (mul (decimal_value ?num) d)"
      by (intro logical_delta_product) simp_all
    moreover have "mul (decimal_value ?num) d \<noteq> Inl KeyError" using lib by auto
    ultimately show ?thesis by (simp add: except_KeyError_def)
  qed
  show "logical_delta mul s = Inl ValueError \<longleftrightarrow> ?fail"
  proof
    assume v: "logical_delta mul s = Inl ValueError"
    show ?fail
    proof (rule ccontr)
      assume nf: "\<not> ?fail"
      then obtain d where d: "intervals ?marker = Some d" by auto
      from ok [OF nf d] v have "mul (decimal_value ?num) d = Inl ValueError" by simp
      with lib show False by auto
    qed
  next
    assume ?fail
    then show "logical_delta mul s = Inl ValueError" by (rule logical_delta_no_parse)
  qed
  show "logical_delta mul s \<notin> {Inl IndexError, Inl KeyError, Inl TypeError,
             Inl ZeroDivisionError, Inl StoreError}"
  proof (cases ?fail)
    case True
    then have "logical_delta mul s = Inl ValueError" by (rule logical_delta_no_parse)
    then show ?thesis by simp
  next
    case False
    then obtain d where d: "intervals ?marker = Some d" by auto
    show ?thesis unfolding ok [OF False d] using lib by auto
  qed
qed

theorem logical_delta_fails_witness:
  "logical_delta (\<lambda>n d. Inl OverflowError) ''5 m'' = Inl ValueError
   \<and> logical_delta (\<lambda>n d. Inl OverflowError) ''m'' = Inl ValueError
   \<and> logical_delta (\<lambda>n d. Inl OverflowError) ''1000000000d'' = Inl OverflowError"
  using logical_delta_fails [where s = "''5 m''" and mul = "\<lambda>n d. Inl OverflowError",
      THEN conjunct1]
    logical_delta_fails [where s = "''m''" and mul = "\<lambda>n d. Inl OverflowError",
      THEN conjunct1]
  by (simp add: parse_defs)

section \<open>Properties of the timestamp cursor\<close>

lemmas cursor_defs = TsDelta_peek_def TsDelta_read_def TsDelta_copy_def TsDelta_init_def
  TsDelta_next_ts_def

text \<open>
  A \<^verbatim>\<open>read\<close> that does not raise is followed by a \<^verbatim>\<open>read\<close> that returns what the first
  returned, plus the delta.
\<close>

lemma TsDelta_read_steps:
  assumes "self < length h" "TsDelta_read add h self = (Inr t1, h1)"
  shows "fst (TsDelta_read add h1 self) = add t1 (delta_time (h ! self))"
  using assms by (auto simp: cursor_defs Let_def split: sum.splits)

text \<open>
  Claim C6, as amended. The claim has the second \<^verbatim>\<open>read\<close> return \<open>T + 2D\<close>. The code
  adds the delta to what the first \<^verbatim>\<open>read\<close> stored, which is \<open>(T + D) + D\<close>; for a
  delta of fixed length the two are the same, for a calendar delta they need not be.
  What holds, for a cursor at address \<open>self\<close> with last timestamp \<open>T\<close> and delta \<open>D\<close>, and
  for every addition: \<^verbatim>\<open>peek\<close> returns \<open>T + D\<close>, or raises what the addition raises, and
  leaves the heap as it is, so a second \<^verbatim>\<open>peek\<close> does the same. When \<open>T + D\<close> is a
  timestamp \<open>T1\<close>, \<^verbatim>\<open>read\<close> returns it and stores it as the last timestamp, changing
  nothing else, and a second \<^verbatim>\<open>read\<close> returns \<open>T1 + D\<close>; when the addition raises,
  \<^verbatim>\<open>read\<close> raises the same and the heap is as before. \<^verbatim>\<open>copy\<close> allocates a new cursor
  with the same last timestamp and delta; a \<^verbatim>\<open>read\<close> of either cursor leaves the other
  object as it is, and the other cursor's next \<^verbatim>\<open>read\<close> still returns \<open>T + D\<close>.
\<close>

theorem TsDelta_cursor:
  fixes h :: "('t, 'd) heap" and add :: "'t \<Rightarrow> 'd \<Rightarrow> error + 't"
  assumes "self < length h"
  shows "TsDelta_peek add h self = (add (last_ts (h ! self)) (delta_time (h ! self)), h)
    \<and> TsDelta_peek add (snd (TsDelta_peek add h self)) self = TsDelta_peek add h self
    \<and> (add (last_ts (h ! self)) (delta_time (h ! self)) = Inr nxt \<longrightarrow>
         TsDelta_read add h self = (Inr nxt, h[self := (h ! self)\<lparr>last_ts := nxt\<rparr>])
         \<and> fst (TsDelta_read add (snd (TsDelta_read add h self)) self)
             = add nxt (delta_time (h ! self)))
    \<and> (add (last_ts (h ! self)) (delta_time (h ! self)) = Inl e \<longrightarrow>
         TsDelta_read add h self = (Inl e, h))
    \<and> TsDelta_copy h self =
        (length h, h @ [\<lparr>valid = False, last_ts = last_ts (h ! self),
                          delta_time = delta_time (h ! self)\<rparr>])
    \<and> (let (c, hc) = TsDelta_copy h self in
         c \<noteq> self
         \<and> hc ! self = h ! self
         \<and> snd (TsDelta_read add hc self) ! c = hc ! c
         \<and> snd (TsDelta_read add hc c) ! self = hc ! self
         \<and> fst (TsDelta_read add (snd (TsDelta_read add hc c)) self)
             = add (last_ts (h ! self)) (delta_time (h ! self))
         \<and> fst (TsDelta_read add (snd (TsDelta_read add hc self)) c)
             = add (last_ts (h ! self)) (delta_time (h ! self)))"
proof (intro conjI impI)
  let ?T = "last_ts (h ! self)" and ?D = "delta_time (h ! self)"
  show "TsDelta_peek add h self = (add ?T ?D, h)"
    by (simp add: cursor_defs)
  show "TsDelta_peek add (snd (TsDelta_peek add h self)) self = TsDelta_peek add h self"
    by (simp add: cursor_defs)
  show "TsDelta_copy h self =
        (length h, h @ [\<lparr>valid = False, last_ts = ?T, delta_time = ?D\<rparr>])"
    by (simp add: cursor_defs)
  show "let (c, hc) = TsDelta_copy h self in
         c \<noteq> self
         \<and> hc ! self = h ! self
         \<and> snd (TsDelta_read add hc self) ! c = hc ! c
         \<and> snd (TsDelta_read add hc c) ! self = hc ! self
         \<and> fst (TsDelta_read add (snd (TsDelta_read add hc c)) self) = add ?T ?D
         \<and> fst (TsDelta_read add (snd (TsDelta_read add hc self)) c) = add ?T ?D"
    using assms
    by (cases "add ?T ?D") (simp_all add: cursor_defs Let_def nth_append)
next
  let ?T = "last_ts (h ! self)" and ?D = "delta_time (h ! self)"
  assume a: "add ?T ?D = Inr nxt"
  with assms show "TsDelta_read add h self = (Inr nxt, h[self := (h ! self)\<lparr>last_ts := nxt\<rparr>])"
    by (simp add: cursor_defs Let_def)
  from a assms show "fst (TsDelta_read add (snd (TsDelta_read add h self)) self) = add nxt ?D"
    by (cases "add nxt ?D") (simp_all add: cursor_defs Let_def)
next
  let ?T = "last_ts (h ! self)" and ?D = "delta_time (h ! self)"
  assume "add ?T ?D = Inl e"
  then show "TsDelta_read add h self = (Inl e, h)"
    by (simp add: cursor_defs)
qed

text \<open>
  A cursor in seconds: from 100 with a delta of 60, two reads return 160 and then 220,
  which is \<open>100 + 2 * 60\<close>.
\<close>

theorem TsDelta_cursor_witness:
  "TsDelta_read (\<lambda>t d. Inr (t + d)) [\<lparr>valid = False, last_ts = 100 :: int, delta_time = 60 :: int\<rparr>] 0
     = (Inr 160, [\<lparr>valid = False, last_ts = 160, delta_time = 60\<rparr>])
   \<and> fst (TsDelta_read (\<lambda>t d. Inr (t + d)) (snd (TsDelta_read (\<lambda>t d. Inr (t + d))
        [\<lparr>valid = False, last_ts = 100 :: int, delta_time = 60 :: int\<rparr>] 0)) 0)
       = Inr (100 + 2 * 60)
   \<and> TsDelta_peek (\<lambda>t d. Inr (t + d)) [\<lparr>valid = False, last_ts = 100 :: int, delta_time = 60 :: int\<rparr>] 0
       = (Inr 160, [\<lparr>valid = False, last_ts = 100, delta_time = 60\<rparr>])"
  using TsDelta_cursor [where self = 0 and add = "\<lambda>t d. Inr (t + d)" and nxt = 160
      and h = "[\<lparr>valid = False, last_ts = 100 :: int, delta_time = 60 :: int\<rparr>]"]
  by (simp add: cursor_defs)

text \<open>
  A cursor at the 31st of January 2021 with a delta of one month. The first \<^verbatim>\<open>read\<close>
  returns the 28th of February and the second the 28th of March, but two months after
  the 31st of January is the 31st of March.
\<close>

theorem TsDelta_cursor_counterexample:
  "fst (TsDelta_read months_add
          [\<lparr>valid = False, last_ts = Date 2021 1 31, delta_time = 1\<rparr>] 0)
     = Inr (Date 2021 2 28)
   \<and> fst (TsDelta_read months_add (snd (TsDelta_read months_add
          [\<lparr>valid = False, last_ts = Date 2021 1 31, delta_time = 1\<rparr>] 0)) 0)
     = Inr (Date 2021 3 28)
   \<and> months_add (Date 2021 1 31) (2 * 1) = Inr (Date 2021 3 31)"
  by (simp add: cursor_defs Let_def days_in_month_def is_leap_def)

section \<open>Properties of the gap interpolator\<close>

lemma py_get_nat: "i < length xs \<Longrightarrow> py_get xs (int i) = Inr (xs ! i)"
  by (simp add: py_get_def py_index_def)

lemma py_get_pred: "0 < i \<Longrightarrow> i \<le> length xs \<Longrightarrow> py_get xs (int i - 1) = Inr (xs ! (i - 1))"
  using py_get_nat [of "i - 1" xs] by (simp add: of_nat_diff)

lemma py_get_minus1: "xs \<noteq> [] \<Longrightarrow> py_get xs (- 1) = Inr (last xs)"
  by (cases xs rule: rev_cases) (auto simp: py_get_def py_index_def nth_append)

lemma py_set_nat: "i < length xs \<Longrightarrow> py_set xs (int i) v = Inr (xs[i := v])"
  by (simp add: py_set_def py_index_def)

lemma find_nonempty_first:
  assumes "i < j" "j < length data" "data ! j \<noteq> None"
    and "\<forall>k. i < k \<and> k < j \<longrightarrow> data ! k = None"
  shows "find_nonempty data i = int j"
proof -
  have "List.find (\<lambda>k. data ! k \<noteq> None) [i + 1 ..< length data] = Some j"
    unfolding find_Some_iff
  proof (intro exI [of _ "j - (i + 1)"] conjI allI impI)
    show "j - (i + 1) < length [i + 1..<length data]" using assms by simp
    show "data ! ([i + 1..<length data] ! (j - (i + 1))) \<noteq> None" using assms by simp
    show "j = [i + 1..<length data] ! (j - (i + 1))" using assms by simp
    fix k assume "k < j - (i + 1)"
    then show "\<not> data ! ([i + 1..<length data] ! k) \<noteq> None" using assms by simp
  qed
  then show ?thesis by (simp add: find_nonempty_def)
qed

lemma find_nonempty_none:
  assumes "\<forall>k. i < k \<and> k < length data \<longrightarrow> data ! k = None"
  shows "find_nonempty data i = - 1"
proof -
  have "List.find (\<lambda>k. data ! k \<noteq> None) [i + 1 ..< length data] = None"
    unfolding find_None_iff using assms by auto
  then show ?thesis by (simp add: find_nonempty_def)
qed

lemma first_present_exists:
  assumes "i < m" "m < length data" "data ! m \<noteq> (None :: 'a option)"
  shows "\<exists>j. i < j \<and> j \<le> m \<and> data ! j \<noteq> None \<and> (\<forall>k. i < k \<and> k < j \<longrightarrow> data ! k = None)"
proof -
  define j where "j = (LEAST j. i < j \<and> data ! j \<noteq> None)"
  have ex: "i < m \<and> data ! m \<noteq> None" using assms by simp
  have 1: "i < j \<and> data ! j \<noteq> None" unfolding j_def by (rule LeastI [of _ m]) (rule ex)
  have 2: "j \<le> m" unfolding j_def by (rule Least_le) (rule ex)
  have 3: "\<forall>k. i < k \<and> k < j \<longrightarrow> data ! k = None"
  proof (intro allI impI)
    fix k assume k: "i < k \<and> k < j"
    show "data ! k = None"
    proof (rule ccontr)
      assume "data ! k \<noteq> None"
      with k have "j \<le> k" unfolding j_def by (intro Least_le) simp
      with k show False by simp
    qed
  qed
  from 1 2 3 show ?thesis by blast
qed

lemma fill_run_upt:
  assumes "0 < i" "i \<le> j" "j \<le> length data" "data ! (i - 1) = Some l"
  shows "\<exists>out. fill_run step [i ..< j] data = Inr out \<and> length out = length data
           \<and> (\<forall>k < length data. out ! k =
                 (if i \<le> k \<and> k < j then Some (l + of_nat (k - i + 1) * step) else data ! k))"
  using assms
proof (induction "j - i" arbitrary: i data l)
  case 0
  then show ?case by auto
next
  case (Suc d)
  then have ij: "i < j" by simp
  let ?data' = "data[i := Some (l + step)]"
  have upt: "[i ..< j] = i # [Suc i ..< j]" using ij by (simp add: upt_conv_Cons)
  have g: "py_get data (int i - 1) = Inr (Some l)"
    using py_get_pred [of i data] Suc.prems by simp
  have s: "py_set data (int i) (Some (l + step)) = Inr ?data'"
    using py_set_nat [of i data] ij Suc.prems by simp
  have step1: "fill_run step [i ..< j] data = fill_run step [Suc i ..< j] ?data'"
    by (simp add: upt g s py_add_def)
  have "\<exists>out. fill_run step [Suc i ..< j] ?data' = Inr out \<and> length out = length ?data'
           \<and> (\<forall>k < length ?data'. out ! k =
                 (if Suc i \<le> k \<and> k < j then Some ((l + step) + of_nat (k - Suc i + 1) * step)
                  else ?data' ! k))"
  proof (rule Suc.hyps(1))
    show "d = j - Suc i" using Suc.hyps(2) by simp
    show "0 < Suc i" by simp
    show "Suc i \<le> j" using ij by simp
    show "j \<le> length ?data'" using Suc.prems by simp
    show "?data' ! (Suc i - 1) = Some (l + step)" using ij Suc.prems by simp
  qed
  then obtain out where out: "fill_run step [Suc i ..< j] ?data' = Inr out"
    "length out = length data"
    "\<forall>k < length data. out ! k =
        (if Suc i \<le> k \<and> k < j then Some ((l + step) + of_nat (k - Suc i + 1) * step)
         else ?data' ! k)"
    by auto
  have "\<forall>k < length data. out ! k =
          (if i \<le> k \<and> k < j then Some (l + of_nat (k - i + 1) * step) else data ! k)"
  proof (intro allI impI)
    fix k assume k: "k < length data"
    consider "k = i" | "Suc i \<le> k \<and> k < j" | "k < i \<or> j \<le> k" by linarith
    then show "out ! k = (if i \<le> k \<and> k < j then Some (l + of_nat (k - i + 1) * step) else data ! k)"
    proof cases
      case 1
      then show ?thesis using out(3) k ij by simp
    next
      case 2
      then have "of_nat (k - i + 1) = (of_nat (k - Suc i + 1) :: rat) + 1"
        by (simp add: Suc_diff_le)
      then show ?thesis using out(3) k 2 by (simp add: algebra_simps)
    next
      case 3
      then show ?thesis using out(3) k ij by auto
    qed
  qed
  with out step1 show ?case by simp
qed

lemma interp_gap_fill:
  assumes "0 < i" "i < j" "j < length data"
    and "data ! (i - 1) = Some l" "data ! j = Some r"
    and "\<forall>k. i \<le> k \<and> k < j \<longrightarrow> data ! k = None"
  shows "\<exists>out. interp_gap i data = Inr out \<and> length out = length data
           \<and> (\<forall>k < length data. out ! k =
                 (if i \<le> k \<and> k < j
                  then Some (l + of_nat (k - i + 1) * ((r - l) / of_nat (j - i + 1)))
                  else data ! k))"
proof -
  have fj: "find_nonempty data i = int j"
    using assms by (intro find_nonempty_first) auto
  have gl: "py_get data (int i - 1) = Inr (Some l)"
    using py_get_pred [of i data] assms by simp
  have gr: "py_get data (int j) = Inr (Some r)"
    using py_get_nat [of j data] assms by simp
  have dv: "py_truediv (r - l) (int j - int i + 1) = Inr ((r - l) / of_nat (j - i + 1))"
  proof -
    have "int j - int i + 1 = int (j - i + 1)" using assms by simp
    then show ?thesis unfolding py_truediv_def by (simp del: of_nat_add of_nat_Suc)
  qed
  have "interp_gap i data = fill_run ((r - l) / of_nat (j - i + 1)) [i ..< j] data"
    by (simp add: interp_gap_def fj gl gr py_sub_def dv)
  moreover have "\<exists>out. fill_run ((r - l) / of_nat (j - i + 1)) [i ..< j] data = Inr out
           \<and> length out = length data
           \<and> (\<forall>k < length data. out ! k =
                 (if i \<le> k \<and> k < j
                  then Some (l + of_nat (k - i + 1) * ((r - l) / of_nat (j - i + 1)))
                  else data ! k))"
    using assms by (intro fill_run_upt) auto
  ultimately show ?thesis by simp
qed

lemma interp_loop_present:
  assumes "length data = n" "0 < i" "i \<le> n" "\<forall>k<i. data ! k \<noteq> None" "data ! (n - 1) \<noteq> None"
  shows "\<exists>out. interp_loop [i ..< n] data = Inr out \<and> length out = n
     \<and> (\<forall>k<n. k < i \<or> data ! k \<noteq> None \<longrightarrow> out ! k = data ! k)
     \<and> (\<forall>k<n. out ! k \<noteq> None)
     \<and> gaps_filled (i - 1) data out"
  using assms
proof (induction "n - i" arbitrary: i data)
  case 0
  then have "i = n" by simp
  have "gaps_filled (i - 1) data data"
    unfolding gaps_filled_def using \<open>i = n\<close> 0 by auto
  then show ?case using 0 \<open>i = n\<close> by simp
next
  case (Suc d)
  then have i_lt: "i < n" by simp
  have upt: "[i ..< n] = i # [Suc i ..< n]" using i_lt by (simp add: upt_conv_Cons)
  have gi: "py_get data (int i) = Inr (data ! i)"
    using py_get_nat [of i data] i_lt Suc.prems by simp
  show ?case
  proof (cases "data ! i = None")
    case False
    have step: "interp_loop [i ..< n] data = interp_loop [Suc i ..< n] data"
      using False by (auto simp: upt gi)
    have "\<exists>out. interp_loop [Suc i ..< n] data = Inr out \<and> length out = n
       \<and> (\<forall>k<n. k < Suc i \<or> data ! k \<noteq> None \<longrightarrow> out ! k = data ! k)
       \<and> (\<forall>k<n. out ! k \<noteq> None)
       \<and> gaps_filled (Suc i - 1) data out"
    proof (rule Suc.hyps(1))
      show "d = n - Suc i" using Suc.hyps(2) by simp
      show "\<forall>k<Suc i. data ! k \<noteq> None" using Suc.prems(4) False by (simp add: less_Suc_eq)
    qed (use Suc.prems i_lt in auto)
    then obtain out where out: "interp_loop [Suc i ..< n] data = Inr out" "length out = n"
      "\<forall>k<n. k < Suc i \<or> data ! k \<noteq> None \<longrightarrow> out ! k = data ! k"
      "\<forall>k<n. out ! k \<noteq> None"
      "gaps_filled i data out"
      by auto
    have "gaps_filled (i - 1) data out"
      unfolding gaps_filled_def
    proof (intro allI impI)
      fix a b l r k
      assume g: "i - 1 \<le> a \<and> a < b \<and> b < length data \<and> data ! a = Some l \<and> data ! b = Some r
        \<and> (\<forall>k. a < k \<and> k < b \<longrightarrow> data ! k = None)"
        and k: "a < k \<and> k < b"
      have "i \<le> a"
      proof (rule ccontr)
        assume "\<not> i \<le> a"
        with g have "a < i" by simp
        moreover from g k \<open>a < i\<close> have "i < b" by linarith
        ultimately have "data ! i = None" using g by blast
        with False show False by simp
      qed
      with g k out(5) show "out ! k = Some (l + of_nat (k - a) * ((r - l) / of_nat (b - a)))"
        unfolding gaps_filled_def by blast
    qed
    with out step show ?thesis by auto
  next
    case True
    have last_present: "data ! (n - 1) \<noteq> None" by (rule Suc.prems(5))
    have "i \<noteq> n - 1" using True last_present by auto
    then have "i < n - 1" using i_lt by simp
    then obtain j where j: "i < j" "j \<le> n - 1" "data ! j \<noteq> None"
      "\<forall>k. i < k \<and> k < j \<longrightarrow> data ! k = None"
      using first_present_exists [of i "n - 1" data] last_present Suc.prems(1) i_lt by auto
    have "data ! (i - 1) \<noteq> None" using Suc.prems(2,4) by simp
    then obtain l where l: "data ! (i - 1) = Some l" by auto
    obtain r where r: "data ! j = Some r" using j(3) by auto
    have run: "\<forall>k. i \<le> k \<and> k < j \<longrightarrow> data ! k = None"
      using True j(4) by (auto simp: le_less)
    have "\<exists>out. interp_gap i data = Inr out \<and> length out = length data
           \<and> (\<forall>k < length data. out ! k =
                 (if i \<le> k \<and> k < j
                  then Some (l + of_nat (k - i + 1) * ((r - l) / of_nat (j - i + 1)))
                  else data ! k))"
      using Suc.prems j l r run by (intro interp_gap_fill) auto
    then obtain data' where d': "interp_gap i data = Inr data'" "length data' = n"
      and d'_all: "\<forall>k < n. data' ! k =
          (if i \<le> k \<and> k < j
           then Some (l + of_nat (k - i + 1) * ((r - l) / of_nat (j - i + 1)))
           else data ! k)"
      using Suc.prems(1) by auto
    have d'_in: "data' ! k = Some (l + of_nat (k - i + 1) * ((r - l) / of_nat (j - i + 1)))"
      if "i \<le> k" "k < j" for k
    proof -
      have "k < n" using that j(2) i_lt by simp
      with d'_all have "data' ! k = (if i \<le> k \<and> k < j
           then Some (l + of_nat (k - i + 1) * ((r - l) / of_nat (j - i + 1)))
           else data ! k)" by blast
      with that show ?thesis by (simp only: simp_thms if_True)
    qed
    have d'_out: "data' ! k = data ! k" if "k < n" "k < i \<or> j \<le> k" for k
    proof -
      from d'_all that(1) have "data' ! k = (if i \<le> k \<and> k < j
           then Some (l + of_nat (k - i + 1) * ((r - l) / of_nat (j - i + 1)))
           else data ! k)" by blast
      moreover have "\<not> (i \<le> k \<and> k < j)" using that(2) by auto
      ultimately show ?thesis by (simp only: if_False)
    qed
    have step: "interp_loop [i ..< n] data = interp_loop [Suc i ..< n] data'"
      using True by (simp add: upt gi d'(1))
    have "\<exists>out. interp_loop [Suc i ..< n] data' = Inr out \<and> length out = n
       \<and> (\<forall>k<n. k < Suc i \<or> data' ! k \<noteq> None \<longrightarrow> out ! k = data' ! k)
       \<and> (\<forall>k<n. out ! k \<noteq> None)
       \<and> gaps_filled (Suc i - 1) data' out"
    proof (rule Suc.hyps(1))
      show "d = n - Suc i" using Suc.hyps(2) by simp
      show "length data' = n" by (rule d'(2))
      show "0 < Suc i" by simp
      show "Suc i \<le> n" using i_lt by simp
      show "\<forall>k<Suc i. data' ! k \<noteq> None"
      proof (intro allI impI)
        fix k assume "k < Suc i"
        then consider "k = i" | "k < i" by linarith
        then show "data' ! k \<noteq> None"
        proof cases
          case 1
          then show ?thesis using d'_in [of i] j(1) by simp
        next
          case 2
          then show ?thesis using d'_out [of k] Suc.prems(4) i_lt by simp
        qed
      qed
      show "data' ! (n - 1) \<noteq> None"
        using d'_out [of "n - 1"] j(2) i_lt last_present by simp
    qed
    then obtain out where out: "interp_loop [Suc i ..< n] data' = Inr out" "length out = n"
      "\<forall>k<n. k < Suc i \<or> data' ! k \<noteq> None \<longrightarrow> out ! k = data' ! k"
      "\<forall>k<n. out ! k \<noteq> None"
      "gaps_filled i data' out"
      by auto
    have keep: "\<forall>k<n. k < i \<or> data ! k \<noteq> None \<longrightarrow> out ! k = data ! k"
    proof (intro allI impI)
      fix k assume k: "k < n" and c: "k < i \<or> data ! k \<noteq> None"
      have nin: "k < i \<or> j \<le> k"
      proof (rule ccontr)
        assume "\<not> (k < i \<or> j \<le> k)"
        then have "i \<le> k \<and> k < j" by simp
        with run have "data ! k = None" by blast
        with c \<open>\<not> (k < i \<or> j \<le> k)\<close> show False by simp
      qed
      then have e: "data' ! k = data ! k" using d'_out [of k] k by simp
      from c show "out ! k = data ! k"
      proof
        assume "k < i"
        then show ?thesis using out(3) k e by simp
      next
        assume "data ! k \<noteq> None"
        then show ?thesis using out(3) k e by simp
      qed
    qed
    have "gaps_filled (i - 1) data out"
      unfolding gaps_filled_def
    proof (intro allI impI)
      fix a b l' r' k
      assume g: "i - 1 \<le> a \<and> a < b \<and> b < length data \<and> data ! a = Some l' \<and> data ! b = Some r'
        \<and> (\<forall>k. a < k \<and> k < b \<longrightarrow> data ! k = None)"
        and k: "a < k \<and> k < b"
      have a_out: "\<not> (i \<le> a \<and> a < j)" using g run by auto
      have b_out: "\<not> (i \<le> b \<and> b < j)" using g run by auto
      show "out ! k = Some (l' + of_nat (k - a) * ((r' - l') / of_nat (b - a)))"
      proof (cases "a = i - 1")
        case True
        have "b = j"
        proof -
          have "i \<le> b" using g True by linarith
          with b_out have "j \<le> b" by simp
          moreover have "\<not> j < b"
          proof
            assume "j < b"
            then have "data ! j = None" using g True j(1) by auto
            with j(3) show False by simp
          qed
          ultimately show ?thesis by simp
        qed
        have lr: "l' = l" "r' = r" using g True \<open>b = j\<close> l r by auto
        have kin: "i \<le> k \<and> k < j" using k True \<open>b = j\<close> Suc.prems(2) by linarith
        then have "k < n" using j(2) i_lt by linarith
        have v: "data' ! k = Some (l + of_nat (k - i + 1) * ((r - l) / of_nat (j - i + 1)))"
          using d'_in [of k] kin by simp
        have "out ! k = data' ! k" using out(3) \<open>k < n\<close> v by simp
        moreover have "k - a = k - i + 1" "b - a = j - i + 1"
          using True \<open>b = j\<close> kin Suc.prems(2) j(1) by auto
        ultimately show ?thesis using lr v by (simp only:)
      next
        case False
        then have "i \<le> a" using g by linarith
        with a_out have ja: "j \<le> a" by simp
        have "data' ! m = data ! m" if "a \<le> m" "m \<le> b" for m
          using d'_out [of m] that ja g Suc.prems(1) by simp
        then have g': "i \<le> a \<and> a < b \<and> b < length data' \<and> data' ! a = Some l' \<and> data' ! b = Some r'
          \<and> (\<forall>k. a < k \<and> k < b \<longrightarrow> data' ! k = None)"
          using g \<open>i \<le> a\<close> d'(2) Suc.prems(1) by auto
        with k out(5) show ?thesis unfolding gaps_filled_def by blast
      qed
    qed
    with out keep step show ?thesis by auto
  qed
qed

lemma linear_interp_first_present:
  assumes "data \<noteq> []" "data ! 0 \<noteq> None"
  shows "linear_interp data = interp_loop [1 ..< length data] data"
proof -
  have "[0 ..< length data] = 0 # [1 ..< length data]"
    using assms(1) by (simp add: upt_conv_Cons)
  moreover have "py_get data (int 0) = Inr (data ! 0)"
    using assms(1) by (intro py_get_nat) simp
  ultimately show ?thesis using assms(2) by (auto simp: linear_interp_def)
qed

lemma linear_interp_present_ends:
  assumes "data \<noteq> []" "hd data \<noteq> None" "last data \<noteq> None"
  shows "\<exists>out. linear_interp data = Inr out \<and> length out = length data
     \<and> (\<forall>k < length data. data ! k \<noteq> None \<longrightarrow> out ! k = data ! k)
     \<and> (\<forall>k < length data. out ! k \<noteq> None)
     \<and> (\<forall>a L left right.
           a + L + 1 < length data \<and> data ! a = Some left \<and> data ! (a + L + 1) = Some right
           \<and> (\<forall>k. 1 \<le> k \<and> k \<le> L \<longrightarrow> data ! (a + k) = None)
         \<longrightarrow> (\<forall>k. 1 \<le> k \<and> k \<le> L \<longrightarrow>
                out ! (a + k) = Some (left + of_nat k * ((right - left) / of_nat (L + 1)))))"
proof -
  let ?n = "length data"
  have n: "0 < ?n" using assms(1) by simp
  have first: "data ! 0 \<noteq> None" using assms(1,2) by (simp add: hd_conv_nth)
  have lastp: "data ! (?n - 1) \<noteq> None" using assms(1,3) by (simp add: last_conv_nth)
  have "\<exists>out. interp_loop [1 ..< ?n] data = Inr out \<and> length out = ?n
     \<and> (\<forall>k<?n. k < 1 \<or> data ! k \<noteq> None \<longrightarrow> out ! k = data ! k)
     \<and> (\<forall>k<?n. out ! k \<noteq> None)
     \<and> gaps_filled (1 - 1) data out"
  proof (rule interp_loop_present)
    show "(1::nat) \<le> ?n" using n by linarith
    show "\<forall>k<1. data ! k \<noteq> None" using first by simp
  qed (use lastp in auto)
  then obtain out where out: "interp_loop [1 ..< ?n] data = Inr out" "length out = ?n"
    "\<forall>k<?n. k < 1 \<or> data ! k \<noteq> None \<longrightarrow> out ! k = data ! k"
    "\<forall>k<?n. out ! k \<noteq> None" "gaps_filled 0 data out"
    by auto
  have gaps: "\<forall>a L left right.
           a + L + 1 < length data \<and> data ! a = Some left \<and> data ! (a + L + 1) = Some right
           \<and> (\<forall>k. 1 \<le> k \<and> k \<le> L \<longrightarrow> data ! (a + k) = None)
         \<longrightarrow> (\<forall>k. 1 \<le> k \<and> k \<le> L \<longrightarrow>
                out ! (a + k) = Some (left + of_nat k * ((right - left) / of_nat (L + 1))))"
  proof (intro allI impI)
    fix a L left right k
    assume g: "a + L + 1 < length data \<and> data ! a = Some left \<and> data ! (a + L + 1) = Some right
           \<and> (\<forall>k. 1 \<le> k \<and> k \<le> L \<longrightarrow> data ! (a + k) = None)"
      and k: "1 \<le> k \<and> k \<le> L"
    have run: "\<forall>m. a < m \<and> m < a + L + 1 \<longrightarrow> data ! m = None"
    proof (intro allI impI)
      fix m assume m: "a < m \<and> m < a + L + 1"
      then have "1 \<le> m - a \<and> m - a \<le> L" by linarith
      with g have "data ! (a + (m - a)) = None" by blast
      with m show "data ! m = None" by simp
    qed
    have G: "0 \<le> a \<and> a < a + L + 1 \<and> a + L + 1 < length data \<and> data ! a = Some left
        \<and> data ! (a + L + 1) = Some right
        \<and> (\<forall>m. a < m \<and> m < a + L + 1 \<longrightarrow> data ! m = None)"
      using g run by simp
    have K: "a < a + k \<and> a + k < a + L + 1" using k by simp
    have "out ! (a + k) = Some (left + of_nat (a + k - a) * ((right - left) / of_nat (a + L + 1 - a)))"
      by (rule out(5) [unfolded gaps_filled_def, rule_format, OF G K])
    then show "out ! (a + k) = Some (left + of_nat k * ((right - left) / of_nat (L + 1)))"
      by simp
  qed
  have li: "linear_interp data = Inr out"
    using linear_interp_first_present [OF assms(1) first] out(1) by simp
  have keep: "\<forall>k < length data. data ! k \<noteq> None \<longrightarrow> out ! k = data ! k"
    using out(3) by blast
  show ?thesis
    by (intro exI [of _ out] conjI) (fact li, fact out(2), fact keep, fact out(4), fact gaps)
qed

lemmas interp_defs = linear_interp_def interp_gap_def find_nonempty_def py_get_def py_index_def
  py_set_def py_sub_def py_add_def py_truediv_def upt_rec

text \<open>
  Claim C2. For every sequence whose first and last elements are present,
  \<^verbatim>\<open>linear_interp\<close> returns normally; the list keeps its length, every present value
  stays as it is, no position is left empty, and for each run of \<open>L\<close> missing values
  between a present value \<open>left\<close> at position \<open>a\<close> and a present value \<open>right\<close> at
  position \<open>a + L + 1\<close>, the \<open>k\<close>-th position of the run holds
  \<open>left + k * ((right - left) / (L + 1))\<close>. The two examples of the specification are
  evaluated: \<^verbatim>\<open>[1, None, None, 4]\<close> becomes \<^verbatim>\<open>[1, 2, 3, 4]\<close> and \<^verbatim>\<open>[2, None, 8]\<close> becomes
  \<^verbatim>\<open>[2, 5, 8]\<close>.
\<close>

theorem linear_interp_fills_gaps:
  "(data \<noteq> [] \<and> hd data \<noteq> None \<and> last data \<noteq> None \<longrightarrow>
     (\<exists>out. linear_interp data = Inr out \<and> length out = length data
       \<and> (\<forall>k < length data. data ! k \<noteq> None \<longrightarrow> out ! k = data ! k)
       \<and> (\<forall>k < length data. out ! k \<noteq> None)
       \<and> (\<forall>a L left right.
             a + L + 1 < length data \<and> data ! a = Some left \<and> data ! (a + L + 1) = Some right
             \<and> (\<forall>k. 1 \<le> k \<and> k \<le> L \<longrightarrow> data ! (a + k) = None)
           \<longrightarrow> (\<forall>k. 1 \<le> k \<and> k \<le> L \<longrightarrow>
                  out ! (a + k) = Some (left + of_nat k * ((right - left) / of_nat (L + 1)))))))
   \<and> linear_interp [Some 1, None, None, Some 4] = Inr [Some 1, Some 2, Some 3, Some 4]
   \<and> linear_interp [Some 2, None, Some 8] = Inr [Some 2, Some 5, Some 8]"
proof (intro conjI impI)
  assume "data \<noteq> [] \<and> hd data \<noteq> None \<and> last data \<noteq> None"
  then show "\<exists>out. linear_interp data = Inr out \<and> length out = length data
       \<and> (\<forall>k < length data. data ! k \<noteq> None \<longrightarrow> out ! k = data ! k)
       \<and> (\<forall>k < length data. out ! k \<noteq> None)
       \<and> (\<forall>a L left right.
             a + L + 1 < length data \<and> data ! a = Some left \<and> data ! (a + L + 1) = Some right
             \<and> (\<forall>k. 1 \<le> k \<and> k \<le> L \<longrightarrow> data ! (a + k) = None)
           \<longrightarrow> (\<forall>k. 1 \<le> k \<and> k \<le> L \<longrightarrow>
                  out ! (a + k) = Some (left + of_nat k * ((right - left) / of_nat (L + 1)))))"
    by (intro linear_interp_present_ends) simp_all
next
  show "linear_interp [Some 1, None, None, Some 4] = Inr [Some 1, Some 2, Some 3, Some 4]"
    by (simp add: interp_defs)
  show "linear_interp [Some 2, None, Some 8] = Inr [Some 2, Some 5, Some 8]"
    by (simp add: interp_defs)
qed

theorem linear_interp_fills_gaps_witness:
  "\<exists>out. linear_interp [Some 2, None, Some 14] = Inr out \<and> length out = 3
     \<and> out ! 0 = Some 2 \<and> out ! 1 = Some 8 \<and> out ! 2 = Some 14"
proof -
  let ?d = "[Some 2, None, Some (14 :: rat)]"
  have "?d \<noteq> [] \<and> hd ?d \<noteq> None \<and> last ?d \<noteq> None" by simp
  with linear_interp_fills_gaps [of ?d]
  obtain out where o: "linear_interp ?d = Inr out" "length out = length ?d"
    and keep: "\<forall>k < length ?d. ?d ! k \<noteq> None \<longrightarrow> out ! k = ?d ! k"
    and gaps: "\<forall>a L left right.
             a + L + 1 < length ?d \<and> ?d ! a = Some left \<and> ?d ! (a + L + 1) = Some right
             \<and> (\<forall>k. 1 \<le> k \<and> k \<le> L \<longrightarrow> ?d ! (a + k) = None)
           \<longrightarrow> (\<forall>k. 1 \<le> k \<and> k \<le> L \<longrightarrow>
                  out ! (a + k) = Some (left + of_nat k * ((right - left) / of_nat (L + 1))))"
    by blast
  have run: "\<forall>k. 1 \<le> k \<and> k \<le> (1::nat) \<longrightarrow> ?d ! (0 + k) = None"
  proof (intro allI impI)
    fix k :: nat assume "1 \<le> k \<and> k \<le> 1"
    then have "k = 1" by simp
    then show "?d ! (0 + k) = None" by simp
  qed
  have "out ! (0 + 1) = Some (2 + of_nat 1 * ((14 - 2) / of_nat (1 + 1)))"
    using gaps [rule_format, of 0 1 2 14 1] run by simp
  then have "out ! 1 = Some 8" by simp
  moreover have "out ! 0 = Some 2" using keep [rule_format, of 0] by simp
  moreover have "out ! 2 = Some 14" using keep [rule_format, of 2] by simp
  ultimately show ?thesis using o by simp
qed

lemma find_nonempty_range:
  "find_nonempty data i = - 1 \<or> (\<exists>j. find_nonempty data i = int j \<and> i < j \<and> j < length data)"
proof (cases "List.find (\<lambda>k. data ! k \<noteq> None) [i + 1 ..< length data]")
  case None
  then show ?thesis by (simp add: find_nonempty_def)
next
  case (Some j)
  then have "j \<in> set [i + 1 ..< length data]"
    unfolding find_Some_iff by (metis nth_mem)
  with Some show ?thesis by (simp add: find_nonempty_def)
qed

lemma py_get_find_nonempty:
  assumes "data \<noteq> []"
  shows "\<exists>x. py_get data (find_nonempty data i) = Inr x"
  using find_nonempty_range [of data i] py_get_minus1 [OF assms] py_get_nat [of _ data]
  by auto

lemma py_sub_None [simp]: "py_sub x None = Inl TypeError" "py_sub None y = Inl TypeError"
  by (cases x; simp add: py_sub_def)+

lemma interp_gap_left_missing:
  assumes "data \<noteq> []" "py_get data (int i - 1) = Inr None"
  shows "interp_gap i data = Inl TypeError"
proof -
  obtain x where "py_get data (find_nonempty data i) = Inr x"
    using py_get_find_nonempty [OF assms(1)] by blast
  then show ?thesis using assms(2) by (simp add: interp_gap_def)
qed

lemma interp_gap_right_missing:
  assumes "data \<noteq> []" "last data = None" "0 < i" "i \<le> length data"
    and "\<forall>k. i < k \<and> k < length data \<longrightarrow> data ! k = None"
  shows "interp_gap i data = Inl TypeError"
proof -
  have "find_nonempty data i = - 1" using assms(5) by (rule find_nonempty_none)
  moreover have "py_get data (- 1) = Inr None" using py_get_minus1 [OF assms(1)] assms(2) by simp
  moreover have "py_get data (int i - 1) = Inr (data ! (i - 1))"
    using assms(3,4) by (rule py_get_pred)
  ultimately show ?thesis by (simp add: interp_gap_def)
qed

lemma interp_loop_last_missing:
  assumes "length data = n" "0 < i" "i < n" "\<forall>k<i. data ! k \<noteq> None" "data ! (n - 1) = None"
  shows "interp_loop [i ..< n] data = Inl TypeError"
  using assms
proof (induction "n - i" arbitrary: i data)
  case 0
  then show ?case by simp
next
  case (Suc d)
  have i_lt: "i < n" by (rule Suc.prems(3))
  have ne: "data \<noteq> []" using Suc.prems(1,3) by auto
  have lastm: "last data = None" using Suc.prems(1,5) ne by (simp add: last_conv_nth)
  have upt: "[i ..< n] = i # [Suc i ..< n]" using i_lt by (simp add: upt_conv_Cons)
  have gi: "py_get data (int i) = Inr (data ! i)"
    using py_get_nat [of i data] i_lt Suc.prems by simp
  show ?case
  proof (cases "data ! i = None")
    case False
    then have "i \<noteq> n - 1" using Suc.prems(5) by auto
    then have si: "Suc i < n" using i_lt by simp
    have step: "interp_loop [i ..< n] data = interp_loop [Suc i ..< n] data"
      using False by (auto simp: upt gi)
    have "interp_loop [Suc i ..< n] data = Inl TypeError"
    proof (rule Suc.hyps(1))
      show "d = n - Suc i" using Suc.hyps(2) by simp
      show "\<forall>k<Suc i. data ! k \<noteq> None" using Suc.prems(4) False by (simp add: less_Suc_eq)
    qed (use Suc.prems si in auto)
    with step show ?thesis by simp
  next
    case True
    show ?thesis
    proof (cases "\<exists>m. i < m \<and> m < n \<and> data ! m \<noteq> None")
      case False
      then have "\<forall>k. i < k \<and> k < length data \<longrightarrow> data ! k = None"
        using Suc.prems(1) by blast
      then have "interp_gap i data = Inl TypeError"
        using ne lastm Suc.prems(1,2) i_lt by (intro interp_gap_right_missing) auto
      then show ?thesis using True by (simp add: upt gi)
    next
      case ex: True
      then obtain m where m: "i < m" "m < n" "data ! m \<noteq> None" by blast
      then obtain j where j: "i < j" "j \<le> m" "data ! j \<noteq> None"
        "\<forall>k. i < k \<and> k < j \<longrightarrow> data ! k = None"
        using first_present_exists [of i m data] Suc.prems(1) by auto
      have "j \<noteq> n - 1" using j(3) Suc.prems(5) by auto
      then have jn: "j < n - 1" using j(2) m(2) by simp
      have "data ! (i - 1) \<noteq> None" using Suc.prems(2,4) by simp
      then obtain l where l: "data ! (i - 1) = Some l" by auto
      obtain r where r: "data ! j = Some r" using j(3) by auto
      have run: "\<forall>k. i \<le> k \<and> k < j \<longrightarrow> data ! k = None"
        using True j(4) by (auto simp: le_less)
      have "\<exists>out. interp_gap i data = Inr out \<and> length out = length data
           \<and> (\<forall>k < length data. out ! k =
                 (if i \<le> k \<and> k < j
                  then Some (l + of_nat (k - i + 1) * ((r - l) / of_nat (j - i + 1)))
                  else data ! k))"
        using Suc.prems j jn l r run by (intro interp_gap_fill) auto
      then obtain data' where d': "interp_gap i data = Inr data'" "length data' = n"
        and d'_all: "\<forall>k < n. data' ! k =
          (if i \<le> k \<and> k < j
           then Some (l + of_nat (k - i + 1) * ((r - l) / of_nat (j - i + 1)))
           else data ! k)"
        using Suc.prems(1) by auto
      have d'_in: "data' ! k \<noteq> None" if "i \<le> k" "k < j" for k
      proof -
        have "k < n" using that jn by simp
        with d'_all have "data' ! k = (if i \<le> k \<and> k < j
           then Some (l + of_nat (k - i + 1) * ((r - l) / of_nat (j - i + 1)))
           else data ! k)" by blast
        with that show ?thesis by (simp only: simp_thms if_True) simp
      qed
      have d'_out: "data' ! k = data ! k" if "k < n" "k < i \<or> j \<le> k" for k
      proof -
        from d'_all that(1) have "data' ! k = (if i \<le> k \<and> k < j
           then Some (l + of_nat (k - i + 1) * ((r - l) / of_nat (j - i + 1)))
           else data ! k)" by blast
        moreover have "\<not> (i \<le> k \<and> k < j)" using that(2) by auto
        ultimately show ?thesis by (simp only: if_False)
      qed
      have si: "Suc i < n" using j(1) jn by simp
      have step: "interp_loop [i ..< n] data = interp_loop [Suc i ..< n] data'"
        using True by (simp add: upt gi d'(1))
      have "interp_loop [Suc i ..< n] data' = Inl TypeError"
      proof (rule Suc.hyps(1))
        show "d = n - Suc i" using Suc.hyps(2) by simp
        show "length data' = n" by (rule d'(2))
        show "0 < Suc i" by simp
        show "Suc i < n" by (rule si)
        show "\<forall>k<Suc i. data' ! k \<noteq> None"
        proof (intro allI impI)
          fix k assume "k < Suc i"
          then consider "k = i" | "k < i" by linarith
          then show "data' ! k \<noteq> None"
          proof cases
            case 1
            then show ?thesis using d'_in [of i] j(1) by simp
          next
            case 2
            then show ?thesis using d'_out [of k] Suc.prems(4) i_lt by simp
          qed
        qed
        show "data' ! (n - 1) = None"
          using d'_out [of "n - 1"] jn Suc.prems(5) by simp
      qed
      with step show ?thesis by simp
    qed
  qed
qed

lemma linear_interp_last_missing:
  assumes "data \<noteq> []" "last data = None"
  shows "linear_interp data = Inl TypeError"
proof -
  let ?n = "length data"
  have n: "0 < ?n" using assms(1) by simp
  have lastm: "data ! (?n - 1) = None" using assms by (simp add: last_conv_nth)
  show ?thesis
  proof (cases "data ! 0 = None")
    case True
    have upt: "[0 ..< ?n] = 0 # [1 ..< ?n]" using n by (simp add: upt_conv_Cons)
    have g0: "py_get data (int 0) = Inr None"
      using py_get_nat [of 0 data] n True by simp
    have "py_get data (int 0 - 1) = Inr None"
      using py_get_minus1 [OF assms(1)] assms(2) by simp
    then have "interp_gap 0 data = Inl TypeError"
      using assms(1) by (rule interp_gap_left_missing [rotated])
    then show ?thesis using g0 by (simp add: linear_interp_def upt)
  next
    case False
    then have "0 \<noteq> ?n - 1" using lastm by auto
    then have "1 < ?n" by simp
    then have "interp_loop [1 ..< ?n] data = Inl TypeError"
      using False lastm by (intro interp_loop_last_missing) auto
    then show ?thesis using linear_interp_first_present [OF assms(1) False] by simp
  qed
qed

lemma linear_interp_wraps:
  assumes "data \<noteq> []" "data ! 0 = None" "last data = Some ll"
  shows "\<exists>out. linear_interp data = Inr out \<and> length out = length data
           \<and> (\<forall>k < length data. out ! k \<noteq> None)"
proof -
  let ?n = "length data"
  have n: "0 < ?n" using assms(1) by simp
  have lastp: "data ! (?n - 1) = Some ll" using assms(1,3) by (simp add: last_conv_nth)
  have "0 \<noteq> ?n - 1" using lastp assms(2) by auto
  then have n2: "0 < ?n - 1" by simp
  have "\<exists>j. 0 < j \<and> j \<le> ?n - 1 \<and> data ! j \<noteq> None
          \<and> (\<forall>k. 0 < k \<and> k < j \<longrightarrow> data ! k = None)"
  proof (rule first_present_exists)
    show "0 < ?n - 1" by (rule n2)
    show "?n - 1 < ?n" using n by simp
    show "data ! (?n - 1) \<noteq> None" using lastp by simp
  qed
  then obtain j where j: "0 < j" "j \<le> ?n - 1" "data ! j \<noteq> None"
    "\<forall>k. 0 < k \<and> k < j \<longrightarrow> data ! k = None"
    by blast
  obtain r where r: "data ! j = Some r" using j(3) by auto
  define step where "step = (r - ll) / of_nat (j + 1)"
  have fj: "find_nonempty data 0 = int j"
    using j n2 by (intro find_nonempty_first) auto
  have gl: "py_get data (int 0 - 1) = Inr (Some ll)"
    using py_get_minus1 [OF assms(1)] assms(3) by simp
  have gr: "py_get data (int j) = Inr (Some r)"
    using py_get_nat [of j data] j(2) n2 r by simp
  have dv: "py_truediv (r - ll) (int j - int 0 + 1) = Inr step"
  proof -
    have "int j - int 0 + 1 = int (j + 1)" by simp
    then show ?thesis unfolding py_truediv_def step_def by (simp del: of_nat_add of_nat_Suc)
  qed
  have gap: "interp_gap 0 data = fill_run step [0 ..< j] data"
    using fj gl gr dv by (simp add: interp_gap_def py_sub_def)
  let ?data0 = "data[0 := Some (ll + step)]"
  have upt: "[0 ..< j] = 0 # [1 ..< j]" using j(1) by (simp add: upt_conv_Cons)
  have s0: "py_set data (int 0) (Some (ll + step)) = Inr ?data0"
    using py_set_nat [of 0 data] n by simp
  have fr: "fill_run step [0 ..< j] data = fill_run step [1 ..< j] ?data0"
    unfolding upt using gl s0 by (simp add: py_add_def)
  have "\<exists>out. fill_run step [1 ..< j] ?data0 = Inr out \<and> length out = length ?data0
           \<and> (\<forall>k < length ?data0. out ! k =
                 (if 1 \<le> k \<and> k < j then Some ((ll + step) + of_nat (k - 1 + 1) * step)
                  else ?data0 ! k))"
  proof (rule fill_run_upt)
    show "(1::nat) \<le> j" using j(1) by linarith
    show "j \<le> length ?data0" using j(2) by simp
    show "?data0 ! (1 - 1) = Some (ll + step)" using n by simp
  qed simp
  then obtain out1 where o1: "fill_run step [1 ..< j] ?data0 = Inr out1" "length out1 = ?n"
    and o1_all: "\<forall>k < ?n. out1 ! k =
                 (if 1 \<le> k \<and> k < j then Some ((ll + step) + of_nat (k - 1 + 1) * step)
                  else ?data0 ! k)"
    by auto
  have o1_0: "out1 ! 0 \<noteq> None" using o1_all [rule_format, of 0] n by simp
  have o1_last: "out1 ! (?n - 1) \<noteq> None"
  proof -
    have "out1 ! (?n - 1) = (if 1 \<le> ?n - 1 \<and> ?n - 1 < j
        then Some ((ll + step) + of_nat (?n - 1 - 1 + 1) * step) else ?data0 ! (?n - 1))"
      using o1_all [rule_format, of "?n - 1"] n by simp
    moreover have "\<not> (1 \<le> ?n - 1 \<and> ?n - 1 < j)" using j(2) by simp
    ultimately have "out1 ! (?n - 1) = ?data0 ! (?n - 1)" by (simp only: if_False)
    then show ?thesis using lastp n2 by simp
  qed
  have g0: "py_get data (int 0) = Inr None"
    using py_get_nat [of 0 data] n assms(2) by simp
  have upn: "[0 ..< ?n] = 0 # [1 ..< ?n]" using n by (simp add: upt_conv_Cons)
  have li: "linear_interp data = interp_loop [1 ..< ?n] out1"
    using g0 gap fr o1(1) by (simp add: linear_interp_def upn)
  have "\<exists>out. interp_loop [1 ..< ?n] out1 = Inr out \<and> length out = ?n
     \<and> (\<forall>k<?n. k < 1 \<or> out1 ! k \<noteq> None \<longrightarrow> out ! k = out1 ! k)
     \<and> (\<forall>k<?n. out ! k \<noteq> None)
     \<and> gaps_filled (1 - 1) out1 out"
  proof (rule interp_loop_present)
    show "length out1 = ?n" by (rule o1(2))
    show "(1::nat) \<le> ?n" using n by linarith
    show "\<forall>k<1. out1 ! k \<noteq> None" using o1_0 by simp
    show "out1 ! (?n - 1) \<noteq> None" by (rule o1_last)
  qed simp
  with li show ?thesis by auto
qed

lemma linear_interp_returns_iff:
  "(\<exists>out. linear_interp data = Inr out) \<longleftrightarrow> data = [] \<or> last data \<noteq> None"
proof (cases "data = []")
  case True
  then show ?thesis by (simp add: linear_interp_def)
next
  case ne: False
  show ?thesis
  proof (cases "last data")
    case None
    then show ?thesis using linear_interp_last_missing [OF ne] ne by simp
  next
    case (Some ll)
    have "\<exists>out. linear_interp data = Inr out"
    proof (cases "data ! 0 = None")
      case True
      then show ?thesis using linear_interp_wraps [OF ne True Some] by blast
    next
      case False
      then have "hd data \<noteq> None" using ne by (simp add: hd_conv_nth)
      then show ?thesis using linear_interp_present_ends [OF ne] Some by blast
    qed
    then show ?thesis using Some by simp
  qed
qed

text \<open>
  Claim C9, as amended. The claim says that a missing first or last element makes
  \<^verbatim>\<open>linear_interp\<close> raise an out-of-range indexing error. Python reads \<^verbatim>\<open>data[-1]\<close> as
  the last element, so no index is ever out of range. What holds: for every non-empty
  sequence whose last element is missing, \<^verbatim>\<open>linear_interp\<close> raises \<^verbatim>\<open>TypeError\<close>, from
  the subtraction on the missing value, and on no sequence at all does it raise
  \<^verbatim>\<open>IndexError\<close>.
\<close>

theorem linear_interp_boundary:
  "(data \<noteq> [] \<and> last data = None \<longrightarrow> linear_interp data = Inl TypeError)
   \<and> linear_interp data \<noteq> Inl IndexError"
proof (intro conjI impI)
  assume "data \<noteq> [] \<and> last data = None"
  then show "linear_interp data = Inl TypeError" by (simp add: linear_interp_last_missing)
next
  show "linear_interp data \<noteq> Inl IndexError"
  proof (cases "data = [] \<or> last data \<noteq> None")
    case True
    then obtain out where "linear_interp data = Inr out"
      using linear_interp_returns_iff [of data] by blast
    then show ?thesis by simp
  next
    case False
    then show ?thesis by (simp add: linear_interp_last_missing)
  qed
qed

theorem linear_interp_boundary_witness:
  "linear_interp [Some 1, None, Some 3, None, None] = Inl TypeError"
  using linear_interp_boundary [of "[Some 1, None, Some 3, None, None]"] by simp

theorem linear_interp_boundary_counterexample:
  "linear_interp [None, Some 2] = Inr [Some 2, Some 2]
   \<and> linear_interp [None, Some 5, Some 8] = Inr [Some (13 / 2), Some 5, Some 8]
   \<and> linear_interp [Some 1, None] = Inl TypeError"
  by (simp add: interp_defs)

section \<open>Properties of the cadence estimator\<close>

lemma length_filter_sort: "length (filter P (sort xs)) = length (filter P (xs :: rat list))"
proof -
  have "mset (filter P (sort xs)) = mset (filter P xs)" by simp
  then show ?thesis by (metis size_mset)
qed

lemma length_filter_prefix:
  assumes "k \<le> length s" "\<forall>i<k. P (s ! i)"
  shows "k \<le> length (filter P s)"
proof -
  have "filter P (take k s) = take k s"
    using assms by (auto simp: filter_id_conv in_set_conv_nth)
  moreover have "filter P s = filter P (take k s) @ filter P (drop k s)"
    by (metis append_take_drop_id filter_append)
  ultimately show ?thesis using assms(1) by simp
qed

lemma length_filter_suffix:
  assumes "k \<le> length s" "\<forall>i. k \<le> i \<and> i < length s \<longrightarrow> P (s ! i)"
  shows "length s - k \<le> length (filter P s)"
proof -
  have "filter P (drop k s) = drop k s"
    using assms by (auto simp: filter_id_conv in_set_conv_nth)
  moreover have "filter P s = filter P (take k s) @ filter P (drop k s)"
    by (metis append_take_drop_id filter_append)
  ultimately show ?thesis by simp
qed

lemma np_median_is_median:
  assumes "xs \<noteq> []"
  shows "\<exists>m. np_median xs = Some m \<and> is_median m xs"
proof -
  let ?s = "sort xs"
  let ?n = "length xs"
  have n: "0 < ?n" using assms by simp
  have len: "length ?s = ?n" by simp
  have srt: "sorted ?s" by simp
  have sne: "?s \<noteq> []" using assms by (metis length_0_conv length_sort)
  have mono: "?s ! i \<le> ?s ! j" if "i \<le> j" "j < ?n" for i j
    using srt that by (simp add: sorted_nth_mono)
  show ?thesis
  proof (cases "odd ?n")
    case True
    let ?m = "?s ! (?n div 2)"
    have med: "np_median xs = Some ?m" using True sne by (simp add: np_median_def Let_def)
    have "?n div 2 + 1 \<le> length (filter (\<lambda>x. x \<le> ?m) ?s)"
    proof (rule length_filter_prefix)
      show "?n div 2 + 1 \<le> length ?s" unfolding len using n by linarith
      show "\<forall>i<?n div 2 + 1. ?s ! i \<le> ?m" using mono n by simp
    qed
    then have lo: "?n \<le> 2 * length (filter (\<lambda>x. x \<le> ?m) xs)"
      unfolding length_filter_sort by linarith
    have "length ?s - ?n div 2 \<le> length (filter (\<lambda>x. ?m \<le> x) ?s)"
    proof (rule length_filter_suffix)
      show "?n div 2 \<le> length ?s" by simp
      show "\<forall>i. ?n div 2 \<le> i \<and> i < length ?s \<longrightarrow> ?m \<le> ?s ! i" using mono by simp
    qed
    then have hi: "?n \<le> 2 * length (filter (\<lambda>x. ?m \<le> x) xs)"
      unfolding length_filter_sort len by linarith
    from med lo hi show ?thesis unfolding is_median_def by blast
  next
    case False
    then have ev: "even ?n" by simp
    then have n2: "2 \<le> ?n" using n by presburger
    let ?a = "?s ! (?n div 2 - 1)" and ?b = "?s ! (?n div 2)"
    let ?m = "(?a + ?b) / 2"
    have med: "np_median xs = Some ?m" using False sne by (simp add: np_median_def Let_def)
    have ab: "?a \<le> ?b" using mono [of "?n div 2 - 1" "?n div 2"] n by simp
    then have am: "?a \<le> ?m" and mb: "?m \<le> ?b" by (simp_all add: field_simps)
    have "?n div 2 \<le> length (filter (\<lambda>x. x \<le> ?m) ?s)"
    proof (rule length_filter_prefix)
      show "?n div 2 \<le> length ?s" by simp
      show "\<forall>i<?n div 2. ?s ! i \<le> ?m"
      proof (intro allI impI)
        fix i assume "i < ?n div 2"
        then have "?s ! i \<le> ?a" using mono [of i "?n div 2 - 1"] n by simp
        with am show "?s ! i \<le> ?m" by simp
      qed
    qed
    then have lo: "?n \<le> 2 * length (filter (\<lambda>x. x \<le> ?m) xs)"
      unfolding length_filter_sort using ev by presburger
    have "length ?s - ?n div 2 \<le> length (filter (\<lambda>x. ?m \<le> x) ?s)"
    proof (rule length_filter_suffix)
      show "?n div 2 \<le> length ?s" by simp
      show "\<forall>i. ?n div 2 \<le> i \<and> i < length ?s \<longrightarrow> ?m \<le> ?s ! i"
      proof (intro allI impI)
        fix i assume "?n div 2 \<le> i \<and> i < length ?s"
        then have "?b \<le> ?s ! i" using mono [of "?n div 2" i] by simp
        with mb show "?m \<le> ?s ! i" by simp
      qed
    qed
    then have hi: "?n \<le> 2 * length (filter (\<lambda>x. ?m \<le> x) xs)"
      unfolding length_filter_sort len using ev by presburger
    from med lo hi show ?thesis unfolding is_median_def by blast
  qed
qed

lemma differences_nth:
  "length (differences xs) = length xs - 1
   \<and> (\<forall>k. k + 1 < length xs \<longrightarrow> differences xs ! k = xs ! (k + 1) - xs ! k)"
  by (auto simp: differences_def nth_tl nth_butlast)

lemma map_float_timestamp: "map float_timestamp xs = xs"
  by (induction xs) (simp_all add: float_timestamp_def)

lemma estimate_delta_general:
  assumes "2 \<le> length timestamps" "2 \<le> sample_size"
  shows "\<exists>median. np_median (differences (take (nat sample_size) timestamps)) = Some median
     \<and> is_median median (differences (take (nat sample_size) timestamps))
     \<and> estimate_delta h timestamps sample_size =
         Inr (length h, h @ [\<lparr>valid = False, last_ts = last timestamps, delta_time = median\<rparr>])"
proof -
  let ?ds = "differences (take (nat sample_size) timestamps)"
  have ne: "timestamps \<noteq> []" using assms(1) by auto
  have "length ?ds = min (length timestamps) (nat sample_size) - 1"
    using differences_nth [of "take (nat sample_size) timestamps"] by simp
  moreover have "2 \<le> min (length timestamps) (nat sample_size)" using assms by simp
  ultimately have "?ds \<noteq> []" by auto
  then obtain m where m: "np_median ?ds = Some m" "is_median m ?ds"
    using np_median_is_median by blast
  have "estimate_delta h timestamps sample_size =
         Inr (length h, h @ [\<lparr>valid = False, last_ts = last timestamps, delta_time = m\<rparr>])"
    using assms(2) m(1) py_get_minus1 [OF ne]
    by (simp add: estimate_delta_def py_slice_to_def map_float_timestamp TsDelta_init_def)
  with m show ?thesis by blast
qed

lemma differences_map_upt:
  "differences (map f [0 ..< Suc n]) = map (\<lambda>k. f (Suc k) - f k) [0 ..< n]"
proof (rule nth_equalityI)
  show "length (differences (map f [0 ..< Suc n])) = length (map (\<lambda>k. f (Suc k) - f k) [0 ..< n])"
    using differences_nth [of "map f [0 ..< Suc n]"] by simp
next
  fix i assume "i < length (differences (map f [0 ..< Suc n]))"
  then have i: "i < n" using differences_nth [of "map f [0 ..< Suc n]"] by simp
  then have "differences (map f [0 ..< Suc n]) ! i
      = map f [0 ..< Suc n] ! (i + 1) - map f [0 ..< Suc n] ! i"
    using differences_nth [of "map f [0 ..< Suc n]"] by simp
  also have "\<dots> = f (Suc i) - f i" using i by (simp del: upt_Suc)
  finally show "differences (map f [0 ..< Suc n]) ! i = map (\<lambda>k. f (Suc k) - f k) [0 ..< n] ! i"
    using i by simp
qed

lemma sort_one_outlier:
  fixes c x :: rat
  assumes "p < n" "c \<le> x"
  shows "sort (map (\<lambda>k. if k = p then x else c) [0 ..< n]) = replicate (n - 1) c @ [x]"
proof (rule properties_for_sort)
  have split: "[0 ..< n] = [0 ..< p] @ p # [Suc p ..< n]"
  proof -
    have "[0 ..< p + (n - p)] = [0 ..< p] @ [p ..< p + (n - p)]"
      by (rule upt_add_eq_append) simp
    moreover have "[p ..< n] = p # [Suc p ..< n]" using assms(1) by (simp add: upt_conv_Cons)
    ultimately show ?thesis using assms(1) by simp
  qed
  have a: "map (\<lambda>k. if k = p then x else c) [0 ..< p] = replicate p c"
  proof -
    have "map (\<lambda>k. if k = p then x else c) [0 ..< p] = map (\<lambda>k. c) [0 ..< p]"
      by (rule map_cong) auto
    then show ?thesis by (simp add: map_replicate_const)
  qed
  have b: "map (\<lambda>k. if k = p then x else c) [Suc p ..< n] = replicate (n - Suc p) c"
  proof -
    have "map (\<lambda>k. if k = p then x else c) [Suc p ..< n] = map (\<lambda>k. c) [Suc p ..< n]"
      by (rule map_cong) auto
    then show ?thesis by (simp add: map_replicate_const)
  qed
  have r: "replicate (n - 1) c = replicate p c @ replicate (n - Suc p) c"
  proof -
    have "n - 1 = p + (n - Suc p)" using assms(1) by simp
    then show ?thesis by (simp only: replicate_add)
  qed
  have "map (\<lambda>k. if k = p then x else c) [0 ..< n]
      = replicate p c @ x # replicate (n - Suc p) c"
    unfolding split by (simp add: a b)
  then show "mset (replicate (n - 1) c @ [x]) = mset (map (\<lambda>k. if k = p then x else c) [0 ..< n])"
    unfolding r by simp
  show "sorted (replicate (n - 1) c @ [x])"
    using assms(2) by (simp add: sorted_append)
qed

lemma np_median_one_outlier:
  fixes c x :: rat
  assumes "p < n" "3 \<le> n" "c \<le> x"
  shows "np_median (map (\<lambda>k. if k = p then x else c) [0 ..< n]) = Some c"
proof -
  let ?s = "replicate (n - 1) c @ [x]"
  have s: "sort (map (\<lambda>k. if k = p then x else c) [0 ..< n]) = ?s"
    using assms(1,3) by (rule sort_one_outlier)
  have len: "length ?s = n" using assms(2) by simp
  have "n div 2 < n - 1" using assms(2) by linarith
  then have mid: "?s ! (n div 2) = c" by (simp add: nth_append)
  show ?thesis
  proof (cases "odd n")
    case True
    then show ?thesis
      unfolding np_median_def s Let_def len using assms(2) mid by simp
  next
    case False
    then have "4 \<le> n" using assms(2) by presburger
    then have "n div 2 - 1 < n - 1" by linarith
    then have "?s ! (n div 2 - 1) = c" by (simp add: nth_append)
    with False show ?thesis
      unfolding np_median_def s Let_def len using assms(2) mid by simp
  qed
qed

lemma spaced_step: "spaced t0 p (Suc k) - spaced t0 p k = (if k = p then 180 else 60)"
  by (auto simp: spaced_def)

lemma estimate_delta_spaced:
  assumes "p < n" "3 \<le> n" "int (Suc n) \<le> sample_size"
  shows "estimate_delta h (map (spaced t0 p) [0 ..< Suc n]) sample_size =
           Inr (length h, h @ [\<lparr>valid = False, last_ts = spaced t0 p n, delta_time = 60\<rparr>])"
proof -
  let ?ts = "map (spaced t0 p) [0 ..< Suc n]"
  have ne: "?ts \<noteq> []" by simp
  have l: "py_get ?ts (- 1) = Inr (spaced t0 p n)"
    using py_get_minus1 [OF ne] by simp
  have t: "py_slice_to ?ts sample_size = ?ts"
    using assms(3) by (simp add: py_slice_to_def del: upt_Suc)
  have d: "differences ?ts = map (\<lambda>k. if k = p then 180 else 60) [0 ..< n]"
    unfolding differences_map_upt by (simp add: spaced_step)
  have "np_median (differences ?ts) = Some 60"
    unfolding d using assms(1,2) by (intro np_median_one_outlier) simp_all
  then show ?thesis
    unfolding estimate_delta_def l t Let_def map_float_timestamp
    by (simp add: TsDelta_init_def del: upt_Suc)
qed

lemma estimate_delta_single: "estimate_delta h [t] 1000 = Inl ValueError"
  by (simp add: estimate_delta_def py_get_def py_index_def py_slice_to_def differences_def
      np_median_def)

text \<open>
  Claim C3, as amended. The claim is made for every non-empty sequence, but one
  timestamp has no differences: the median of nothing is NaN and no \<^verbatim>\<open>TsDelta\<close> is
  built. What holds: for every sequence of at least two timestamps and every sample
  size of at least two (1000 is the default), \<^verbatim>\<open>estimate_delta\<close> returns a new cursor
  whose delta is the median of the consecutive differences of the first \<open>sample_size\<close>
  timestamps and whose last timestamp is the last element of the whole sequence. The
  differences are \<open>xs[k + 1] - xs[k]\<close>. For 1000 timestamps 60 seconds apart with
  one step of 180 seconds, wherever it is, the delta is 60 seconds.
\<close>

theorem estimate_delta_cadence:
  "(2 \<le> length timestamps \<and> 2 \<le> sample_size \<longrightarrow>
      (\<exists>median. np_median (differences (take (nat sample_size) timestamps)) = Some median
         \<and> is_median median (differences (take (nat sample_size) timestamps))
         \<and> estimate_delta h timestamps sample_size =
             Inr (length h, h @ [\<lparr>valid = False, last_ts = last timestamps,
                                  delta_time = median\<rparr>])))
   \<and> length (differences xs) = length xs - 1
   \<and> (\<forall>k. k + 1 < length xs \<longrightarrow> differences xs ! k = xs ! (k + 1) - xs ! k)
   \<and> (p < 999 \<longrightarrow>
        estimate_delta h (map (spaced t0 p) [0 ..< 1000]) 1000 =
          Inr (length h, h @ [\<lparr>valid = False, last_ts = spaced t0 p 999, delta_time = 60\<rparr>]))"
proof (intro conjI impI)
  assume "2 \<le> length timestamps \<and> 2 \<le> sample_size"
  then show "\<exists>median. np_median (differences (take (nat sample_size) timestamps)) = Some median
         \<and> is_median median (differences (take (nat sample_size) timestamps))
         \<and> estimate_delta h timestamps sample_size =
             Inr (length h, h @ [\<lparr>valid = False, last_ts = last timestamps,
                                  delta_time = median\<rparr>])"
    by (intro estimate_delta_general) simp_all
next
  show "length (differences xs) = length xs - 1"
    using differences_nth [of xs] by blast
  show "\<forall>k. k + 1 < length xs \<longrightarrow> differences xs ! k = xs ! (k + 1) - xs ! k"
    using differences_nth [of xs] by blast
next
  assume p: "p < 999"
  have "estimate_delta h (map (spaced t0 p) [0 ..< Suc 999]) 1000 =
          Inr (length h, h @ [\<lparr>valid = False, last_ts = spaced t0 p 999, delta_time = 60\<rparr>])"
    using p by (intro estimate_delta_spaced) simp_all
  moreover have "Suc 999 = 1000" by simp
  ultimately show "estimate_delta h (map (spaced t0 p) [0 ..< 1000]) 1000 =
          Inr (length h, h @ [\<lparr>valid = False, last_ts = spaced t0 p 999, delta_time = 60\<rparr>])"
    by (simp only:)
qed

theorem estimate_delta_cadence_witness:
  "estimate_delta [] [0, 10, 30, 60, 1000] 3
     = Inr (0, [\<lparr>valid = False, last_ts = 1000, delta_time = 15\<rparr>])
   \<and> (\<exists>ts. length ts = 1000 \<and> ts ! 500 = 30000 \<and> ts ! 501 = 30180 \<and>
        estimate_delta [] ts 1000 = Inr (0, [\<lparr>valid = False, last_ts = 60060, delta_time = 60\<rparr>]))"
proof
  have "\<exists>median. np_median (differences (take (nat 3) [0, 10, 30, 60, 1000])) = Some median
         \<and> is_median median (differences (take (nat 3) [0, 10, 30, 60, 1000]))
         \<and> estimate_delta [] [0, 10, 30, 60, 1000] 3 =
             Inr (length [], [] @ [\<lparr>valid = False, last_ts = last [0, 10, 30, 60, 1000],
                                  delta_time = median\<rparr>])"
    using estimate_delta_cadence [of "[0, 10, 30, 60, 1000]" 3 "[]"] by simp
  then show "estimate_delta [] [0, 10, 30, 60, 1000] 3
     = Inr (0, [\<lparr>valid = False, last_ts = 1000, delta_time = 15\<rparr>])"
    by (auto simp: np_median_def differences_def Let_def)
next
  let ?ts = "map (spaced 0 500) [0 ..< 1000]"
  have "estimate_delta [] ?ts 1000 =
      Inr (length [], [] @ [\<lparr>valid = False, last_ts = spaced 0 500 999, delta_time = 60\<rparr>])"
    using estimate_delta_cadence [of _ _ "[]" _ 500 0] by simp
  then have "estimate_delta [] ?ts 1000 = Inr (0, [\<lparr>valid = False, last_ts = 60060, delta_time = 60\<rparr>])"
    by (simp add: spaced_def)
  moreover have "length ?ts = 1000" by simp
  moreover have "?ts ! 500 = 30000" "?ts ! 501 = 30180"
    by (simp_all add: spaced_def del: upt_rec_numeral)
  ultimately show "\<exists>ts. length ts = 1000 \<and> ts ! 500 = 30000 \<and> ts ! 501 = 30180 \<and>
        estimate_delta [] ts 1000 = Inr (0, [\<lparr>valid = False, last_ts = 60060, delta_time = 60\<rparr>])"
    by blast
qed

theorem estimate_delta_cadence_counterexample:
  "estimate_delta [] [1700000000] 1000 = Inl ValueError"
  by (rule estimate_delta_single)

section \<open>Properties of the paged reader\<close>

lemma map_raise_length: "map_raise f xs = Inr ys \<Longrightarrow> length ys = length xs"
  by (induction xs arbitrary: ys) (auto split: sum.splits)

lemma map_raise_append:
  "map_raise f (xs @ ys) =
     (case map_raise f xs of Inl e \<Rightarrow> Inl e
      | Inr us \<Rightarrow> (case map_raise f ys of Inl e \<Rightarrow> Inl e | Inr vs \<Rightarrow> Inr (us @ vs)))"
  by (induction xs) (auto split: sum.splits)

lemma map_raise_total:
  "(\<forall>x \<in> set xs. \<exists>y. f x = Inr y) \<Longrightarrow> \<exists>ys. map_raise f xs = Inr ys"
  by (induction xs) auto

lemma read_pages_error:
  assumes "page execute i = Inl e"
  shows "read_pages execute tsf vf i timestamps values = Some (Inl e)"
  using assms by (subst read_pages.simps) (simp add: page_def)

lemma read_pages_step:
  assumes "page execute i = Inr res"
    and "fields_of tsf res = Inr new_ts" "fields_of vf res = Inr new_vs"
  shows "read_pages execute tsf vf i timestamps values =
     (if length res < batch_size
      then Some (Inr (timestamps @ new_ts, values @ new_vs, i + 1))
      else read_pages execute tsf vf (i + 1) (timestamps @ new_ts) (values @ new_vs))"
  using assms by (subst read_pages.simps) (simp add: page_def fields_of_def)

lemma read_pages_key_error:
  assumes "page execute i = Inr res"
    and "fields_of tsf res = Inl e \<or> (\<exists>new_ts. fields_of tsf res = Inr new_ts \<and> fields_of vf res = Inl e)"
  shows "read_pages execute tsf vf i timestamps values = Some (Inl e)"
  using assms by (subst read_pages.simps) (auto simp: page_def fields_of_def)

lemma read_pages_stops:
  assumes "page_stops execute tsf vf i"
  shows "\<exists>r. read_pages execute tsf vf i timestamps values = Some r"
proof (cases "page execute i")
  case (Inl e)
  then show ?thesis by (simp add: read_pages_error)
next
  case (Inr res)
  show ?thesis
  proof (cases "fields_of tsf res")
    case (Inl e)
    then show ?thesis using read_pages_key_error [OF Inr, of tsf e vf] by simp
  next
    case ts: (Inr new_ts)
    show ?thesis
    proof (cases "fields_of vf res")
      case (Inl e)
      then show ?thesis using read_pages_key_error [OF Inr, of tsf e vf] ts by simp
    next
      case vs: (Inr new_vs)
      then have "length res < batch_size"
        using assms Inr ts by (simp add: page_stops_def)
      then show ?thesis using read_pages_step [OF Inr ts vs] by simp
    qed
  qed
qed

lemma read_pages_continues:
  assumes "\<not> page_stops execute tsf vf i"
  shows "\<exists>res new_ts new_vs. page execute i = Inr res \<and> fields_of tsf res = Inr new_ts
     \<and> fields_of vf res = Inr new_vs \<and> \<not> length res < batch_size
     \<and> read_pages execute tsf vf i timestamps values =
         read_pages execute tsf vf (i + 1) (timestamps @ new_ts) (values @ new_vs)"
proof -
  from assms obtain res where res: "page execute i = Inr res"
    by (cases "page execute i") (auto simp: page_stops_def)
  from assms res have c: "\<not> isl (fields_of tsf res)" "\<not> isl (fields_of vf res)"
    "\<not> length res < batch_size"
    by (simp_all add: page_stops_def)
  obtain new_ts where t: "fields_of tsf res = Inr new_ts"
    using c(1) by (cases "fields_of tsf res") auto
  obtain new_vs where v: "fields_of vf res = Inr new_vs"
    using c(2) by (cases "fields_of vf res") auto
  from read_pages_step [OF res t v] res t v c(3) show ?thesis by simp
qed

lemma read_pages_terminates:
  assumes "page_stops execute tsf vf (i + n)"
  shows "\<exists>r. read_pages execute tsf vf i timestamps values = Some r"
  using assms
proof (induction n arbitrary: i timestamps "values")
  case 0
  then show ?case by (simp add: read_pages_stops)
next
  case (Suc n)
  show ?case
  proof (cases "page_stops execute tsf vf i")
    case True
    then show ?thesis by (rule read_pages_stops)
  next
    case False
    then obtain new_ts new_vs where
      "read_pages execute tsf vf i timestamps values =
         read_pages execute tsf vf (i + 1) (timestamps @ new_ts) (values @ new_vs)"
      using read_pages_continues by blast
    moreover have "page_stops execute tsf vf (i + 1 + n)" using Suc.prems by simp
    ultimately show ?thesis using Suc.IH by metis
  qed
qed

lemma read_pages_skip:
  assumes "\<forall>k. i \<le> k \<and> k < i + n \<longrightarrow> \<not> page_stops execute tsf vf k"
  shows "\<exists>new_ts new_vs. length new_ts = length new_vs
     \<and> read_pages execute tsf vf i timestamps values =
         read_pages execute tsf vf (i + n) (timestamps @ new_ts) (values @ new_vs)"
  using assms
proof (induction n arbitrary: i timestamps "values")
  case 0
  have "length ([] :: pyval list) = length ([] :: pyval list)
     \<and> read_pages execute tsf vf i timestamps values =
         read_pages execute tsf vf (i + 0) (timestamps @ []) (values @ [])" by simp
  then show ?case by blast
next
  case (Suc n)
  have "\<not> page_stops execute tsf vf i" using Suc.prems by simp
  then obtain res ts1 vs1 where s: "fields_of tsf res = Inr ts1" "fields_of vf res = Inr vs1"
    "read_pages execute tsf vf i timestamps values =
         read_pages execute tsf vf (i + 1) (timestamps @ ts1) (values @ vs1)"
    using read_pages_continues [of execute tsf vf i timestamps "values"] by blast
  have l1: "length ts1 = length vs1"
    using s(1,2) by (simp add: fields_of_def map_raise_length)
  have "\<forall>k. i + 1 \<le> k \<and> k < i + 1 + n \<longrightarrow> \<not> page_stops execute tsf vf k"
    using Suc.prems by simp
  from Suc.IH [OF this, of "timestamps @ ts1" "values @ vs1"]
  obtain ts2 vs2 where r: "length ts2 = length vs2"
    "read_pages execute tsf vf (i + 1) (timestamps @ ts1) (values @ vs1) =
       read_pages execute tsf vf (i + 1 + n) ((timestamps @ ts1) @ ts2) ((values @ vs1) @ vs2)"
    by blast
  have "length (ts1 @ ts2) = length (vs1 @ vs2)
     \<and> read_pages execute tsf vf i timestamps values =
         read_pages execute tsf vf (i + Suc n) (timestamps @ (ts1 @ ts2)) (values @ (vs1 @ vs2))"
    using l1 r s(3) by simp
  then show ?case by blast
qed

lemma read_pages_returns_stops:
  assumes "read_pages execute tsf vf i timestamps values = Some r"
  shows "\<exists>n. page_stops execute tsf vf (i + n)"
proof (rule read_pages.raw_induct
    [where P = "\<lambda>execute tsf vf i timestamps values r. \<exists>n. page_stops execute tsf vf (i + n)",
      OF _ assms])
  fix f execute tsf vf i timestamps "values" r
  assume IH: "\<And>execute tsf vf i timestamps values r.
       f execute tsf vf i timestamps values = Some r \<Longrightarrow> \<exists>n. page_stops execute tsf vf (i + n)"
    and eq: "(case execute (i * batch_size) ((i + 1) * batch_size) of
        Inl e \<Rightarrow> Some (Inl e)
      | Inr res \<Rightarrow>
          (case map_raise (\<lambda>x. py_lookup x tsf) res of
             Inl e \<Rightarrow> Some (Inl e)
           | Inr new_ts \<Rightarrow>
               (case map_raise (\<lambda>x. py_lookup x vf) res of
                  Inl e \<Rightarrow> Some (Inl e)
                | Inr new_vs \<Rightarrow>
                    if length res < batch_size
                    then Some (Inr (timestamps @ new_ts, values @ new_vs, i + 1))
                    else f execute tsf vf (i + 1)
                           (timestamps @ new_ts) (values @ new_vs)))) = Some r"
  show "\<exists>n. page_stops execute tsf vf (i + n)"
  proof (cases "page_stops execute tsf vf i")
    case True
    then have "page_stops execute tsf vf (i + 0)" by simp
    then show ?thesis by blast
  next
    case False
    then obtain res new_ts new_vs where c: "page execute i = Inr res"
      "fields_of tsf res = Inr new_ts" "fields_of vf res = Inr new_vs"
      "\<not> length res < batch_size"
      using read_pages_continues [of execute tsf vf i timestamps "values"] by blast
    with eq have "f execute tsf vf (i + 1) (timestamps @ new_ts) (values @ new_vs) = Some r"
      by (simp add: page_def fields_of_def)
    then obtain n where "page_stops execute tsf vf (i + 1 + n)" using IH by blast
    then have "page_stops execute tsf vf (i + Suc n)" by simp
    then show ?thesis by blast
  qed
qed

lemma read_pages_first_stop:
  assumes "read_pages execute tsf vf i timestamps values = Some r"
  shows "\<exists>n new_ts new_vs. page_stops execute tsf vf (i + n)
     \<and> (\<forall>k. i \<le> k \<and> k < i + n \<longrightarrow> \<not> page_stops execute tsf vf k)
     \<and> length new_ts = length new_vs
     \<and> read_pages execute tsf vf (i + n) (timestamps @ new_ts) (values @ new_vs) = Some r"
proof -
  define n where "n = (LEAST n. page_stops execute tsf vf (i + n))"
  obtain n' where "page_stops execute tsf vf (i + n')"
    using read_pages_returns_stops [OF assms] by blast
  then have st: "page_stops execute tsf vf (i + n)" unfolding n_def by (rule LeastI)
  have before: "\<forall>k. i \<le> k \<and> k < i + n \<longrightarrow> \<not> page_stops execute tsf vf k"
  proof (intro allI impI)
    fix k assume k: "i \<le> k \<and> k < i + n"
    show "\<not> page_stops execute tsf vf k"
    proof
      assume "page_stops execute tsf vf k"
      then have "page_stops execute tsf vf (i + (k - i))" using k by simp
      then have "n \<le> k - i" unfolding n_def by (rule Least_le)
      with k show False by linarith
    qed
  qed
  from read_pages_skip [OF before, of timestamps "values"] assms st before
  show ?thesis by metis
qed

lemma batch_size_pos: "0 < batch_size"
  by (simp add: batch_size_def)

lemma page_paged: "page (paged rows) k = Inr (take batch_size (drop (k * batch_size) rows))"
  by (simp add: page_def paged_def)

lemma map_raise_take: "map_raise f xs = Inr ys \<Longrightarrow> map_raise f (take n xs) = Inr (take n ys)"
proof (induction xs arbitrary: n ys)
  case Nil
  then show ?case by simp
next
  case (Cons x xs)
  then show ?case by (cases n) (auto split: sum.splits)
qed

lemma map_raise_drop: "map_raise f xs = Inr ys \<Longrightarrow> map_raise f (drop n xs) = Inr (drop n ys)"
proof (induction xs arbitrary: n ys)
  case Nil
  then show ?case by simp
next
  case (Cons x xs)
  then show ?case by (cases n) (auto split: sum.splits)
qed

lemma fields_of_page:
  assumes "fields_of f rows = Inr xs"
  shows "fields_of f (take n (drop m rows)) = Inr (take n (drop m xs))"
  using assms unfolding fields_of_def by (intro map_raise_take map_raise_drop)

lemma fields_of_length: "fields_of f rows = Inr xs \<Longrightarrow> length xs = length rows"
  unfolding fields_of_def by (rule map_raise_length)

lemma read_pages_paged:
  assumes "fields_of tsf rows = Inr tsl" "fields_of vf rows = Inr vl"
    and "i * batch_size \<le> length rows"
  shows "read_pages (paged rows) tsf vf i timestamps values =
     Some (Inr (timestamps @ drop (i * batch_size) tsl, values @ drop (i * batch_size) vl,
                length rows div batch_size + 1))"
  using assms(3)
proof (induction "length rows - i * batch_size" arbitrary: i timestamps "values"
    rule: less_induct)
  case less
  let ?b = batch_size
  let ?res = "take ?b (drop (i * ?b) rows)"
  have pg: "page (paged rows) i = Inr ?res" by (rule page_paged)
  have ft: "fields_of tsf ?res = Inr (take ?b (drop (i * ?b) tsl))"
    using assms(1) by (rule fields_of_page)
  have fv: "fields_of vf ?res = Inr (take ?b (drop (i * ?b) vl))"
    using assms(2) by (rule fields_of_page)
  have lt: "length tsl = length rows" using assms(1) by (rule fields_of_length)
  have lv: "length vl = length rows" using assms(2) by (rule fields_of_length)
  note step = read_pages_step [OF pg ft fv, of timestamps "values"]
  show ?case
  proof (cases "length ?res < ?b")
    case True
    then have short: "length rows - i * ?b < ?b" by simp
    then have "length rows < (i + 1) * ?b" using less.prems by simp
    then have d: "length rows div ?b = i"
      using less.prems by (metis div_nat_eqI add.commute mult.commute plus_1_eq_Suc)
    have t: "take ?b (drop (i * ?b) tsl) = drop (i * ?b) tsl"
      using short lt by simp
    have v: "take ?b (drop (i * ?b) vl) = drop (i * ?b) vl"
      using short lv by simp
    have "read_pages (paged rows) tsf vf i timestamps values =
        Some (Inr (timestamps @ take ?b (drop (i * ?b) tsl),
                   values @ take ?b (drop (i * ?b) vl), i + 1))"
      using step True by (simp only: if_True)
    then show ?thesis unfolding t v d .
  next
    case False
    then have full: "?b \<le> length rows - i * ?b" by simp
    then have nxt: "(i + 1) * ?b \<le> length rows" using less.prems by simp
    have "length rows - (i + 1) * ?b < length rows - i * ?b"
      using full batch_size_pos by simp
    from less.hyps [OF this nxt]
    have r: "read_pages (paged rows) tsf vf (i + 1) (timestamps @ take ?b (drop (i * ?b) tsl))
            (values @ take ?b (drop (i * ?b) vl)) =
          Some (Inr ((timestamps @ take ?b (drop (i * ?b) tsl)) @ drop ((i + 1) * ?b) tsl,
                     (values @ take ?b (drop (i * ?b) vl)) @ drop ((i + 1) * ?b) vl,
                     length rows div ?b + 1))" .
    have td: "take ?b (drop (i * ?b) xs) @ drop ((i + 1) * ?b) xs = drop (i * ?b) xs"
      for xs :: "pyval list"
    proof -
      have "drop ((i + 1) * ?b) xs = drop ?b (drop (i * ?b) xs)"
        by (simp add: add.commute)
      then show ?thesis by (simp only: append_take_drop_id)
    qed
    have "read_pages (paged rows) tsf vf i timestamps values =
        read_pages (paged rows) tsf vf (i + 1) (timestamps @ take ?b (drop (i * ?b) tsl))
            (values @ take ?b (drop (i * ?b) vl))"
      using step False by (simp only: if_False)
    then show ?thesis unfolding r append_assoc td .
  qed
qed

lemma short_page_stops: "short_page execute k \<Longrightarrow> page_stops execute tsf vf k"
  by (auto simp: short_page_def page_stops_def split: sum.splits)

lemma read_pages_at_stop:
  assumes "page_stops execute tsf vf n"
    and "read_pages execute tsf vf n timestamps values = Some (Inr (ts, vs, m))"
  shows "m = n + 1 \<and> short_page execute n
     \<and> (\<exists>res new_ts new_vs. page execute n = Inr res \<and> fields_of tsf res = Inr new_ts
           \<and> fields_of vf res = Inr new_vs \<and> ts = timestamps @ new_ts \<and> vs = values @ new_vs)"
proof (cases "page execute n")
  case (Inl e)
  then show ?thesis using assms(2) by (simp add: read_pages_error)
next
  case (Inr res)
  show ?thesis
  proof (cases "fields_of tsf res")
    case (Inl e)
    then show ?thesis using read_pages_key_error [OF Inr, of tsf e vf] assms(2) by simp
  next
    case t: (Inr new_ts)
    show ?thesis
    proof (cases "fields_of vf res")
      case (Inl e)
      then show ?thesis using read_pages_key_error [OF Inr, of tsf e vf] t assms(2) by simp
    next
      case v: (Inr new_vs)
      then have short: "length res < batch_size"
        using assms(1) Inr t by (simp add: page_stops_def)
      then have "read_pages execute tsf vf n timestamps values =
          Some (Inr (timestamps @ new_ts, values @ new_vs, n + 1))"
        using read_pages_step [OF Inr t v] by simp
      with assms(2) have "m = n + 1" "ts = timestamps @ new_ts" "vs = values @ new_vs"
        by simp_all
      moreover have "short_page execute n" using Inr short by (simp add: short_page_def)
      ultimately show ?thesis using Inr t v by blast
    qed
  qed
qed

lemma read_pages_requests:
  assumes "read_pages execute tsf vf 0 [] [] = Some (Inr (ts, vs, m))"
  shows "0 < m \<and> short_page execute (m - 1) \<and> (\<forall>k < m - 1. \<not> short_page execute k)
     \<and> (\<forall>k < m. \<exists>res. page execute k = Inr res) \<and> length ts = length vs"
proof -
  obtain n new_ts new_vs where n: "page_stops execute tsf vf (0 + n)"
    "\<forall>k. 0 \<le> k \<and> k < 0 + n \<longrightarrow> \<not> page_stops execute tsf vf k"
    "length new_ts = length new_vs"
    "read_pages execute tsf vf (0 + n) ([] @ new_ts) ([] @ new_vs) = Some (Inr (ts, vs, m))"
    using read_pages_first_stop [OF assms] by blast
  then have st: "page_stops execute tsf vf n" 
    and rd: "read_pages execute tsf vf n new_ts new_vs = Some (Inr (ts, vs, m))" by simp_all
  from read_pages_at_stop [OF st rd] obtain res t1 v1 where
    m: "m = n + 1" and sp: "short_page execute n" and pn: "page execute n = Inr res"
    and f: "fields_of tsf res = Inr t1" "fields_of vf res = Inr v1"
    and r: "ts = new_ts @ t1" "vs = new_vs @ v1"
    by blast
  have before: "\<not> page_stops execute tsf vf k" if "k < n" for k using n(2) that by simp
  have "\<not> short_page execute k" if "k < n" for k
    using before [OF that] short_page_stops by blast
  moreover have "\<exists>res. page execute k = Inr res" if "k < m" for k
  proof (cases "k = n")
    case True
    then show ?thesis using pn by simp
  next
    case False
    then have "k < n" using that m by simp
    from before [OF this] show ?thesis
      by (cases "page execute k") (simp_all add: page_stops_def)
  qed
  moreover have "length ts = length vs"
    using r n(3) f fields_of_length by simp
  ultimately show ?thesis using m sp by simp
qed

lemma map_raise_replicate: "f x = Inr y \<Longrightarrow> map_raise f (replicate n x) = Inr (replicate n y)"
  by (induction n) auto

lemma TsReader_read_error:
  assumes "read_pages (execute (build_search self)) (ts_field self) (value_field self) 0 [] []
             = Some (Inl e)"
  shows "TsReader_read execute string2date self = Some (Inl e, self)"
  using assms by (simp add: TsReader_read_def)

lemma TsReader_read_rows:
  assumes "read_pages (execute (build_search self)) (ts_field self) (value_field self) 0 [] []
             = Some (Inr (ts, vs, m))"
  shows "TsReader_read execute string2date self =
     Some (case map_raise string2date ts of Inl e \<Rightarrow> Inl e | Inr ds \<Rightarrow> Inr (ds, vs),
           if ts = [] then self else self\<lparr>latest_ts := last ts\<rparr>)"
  using assms
  by (cases "map_raise string2date ts")
     (simp_all add: TsReader_read_def TsReader_set_latest_def Let_def)

lemma TsReader_read_none:
  assumes "read_pages (execute (build_search self)) (ts_field self) (value_field self) 0 [] []
             = None"
  shows "TsReader_read execute string2date self = None"
  using assms by (simp add: TsReader_read_def)

lemma TsReader_read_returns:
  assumes "read_pages (execute (build_search self)) (ts_field self) (value_field self) 0 [] []
             = Some r"
  shows "\<exists>out. TsReader_read execute string2date self = Some out"
proof (cases r)
  case (Inl e)
  with assms have "read_pages (execute (build_search self)) (ts_field self) (value_field self)
      0 [] [] = Some (Inl e)" by simp
  from TsReader_read_error [where execute = execute and self = self
      and string2date = string2date, OF this]
  show ?thesis by blast
next
  case (Inr t)
  obtain ts vs m where "t = (ts, vs, m)" by (cases t) auto
  with assms Inr have "read_pages (execute (build_search self)) (ts_field self)
      (value_field self) 0 [] [] = Some (Inr (ts, vs, m))" by simp
  from TsReader_read_rows [where execute = execute and self = self
      and string2date = string2date, OF this]
  show ?thesis by blast
qed

lemma read_pages_page_fails:
  assumes "\<forall>k < n. \<not> page_stops execute tsf vf k" "page execute n = Inl e"
  shows "read_pages execute tsf vf 0 [] [] = Some (Inl e)"
proof -
  have "\<forall>k. 0 \<le> k \<and> k < 0 + n \<longrightarrow> \<not> page_stops execute tsf vf k" using assms(1) by simp
  from read_pages_skip [OF this, of "[]" "[]"]
  obtain new_ts new_vs where
    "read_pages execute tsf vf 0 [] [] = read_pages execute tsf vf n new_ts new_vs"
    by auto
  then show ?thesis using read_pages_error [OF assms(2)] by simp
qed

text \<open>
  Claim C4. The loop of \<^verbatim>\<open>_read\<close> asks for the pages \<open>[i * 10000, (i + 1) * 10000)\<close>,
  \<open>i = 0, 1, \<dots>\<close> For every store that returns a short page at some point, the loop
  returns, and so does \<^verbatim>\<open>_read\<close>. When the loop returns rows after \<open>m\<close> requests, the
  last page asked for is short and none before it is: it stops at the first short page.
  For a store that serves the pages of a fixed sequence of rows, each with both
  fields, the loop returns all timestamps and values after \<open>len div 10000 + 1\<close>
  requests: three requests and 25000 timestamps for 25000 rows, and for \<open>j * 10000\<close>
  rows \<open>j + 1\<close> requests, the last of which returns the empty page.
\<close>

theorem read_pages_pagination:
  "((\<exists>n. short_page execute n) \<longrightarrow> (\<exists>r. read_pages execute tsf vf 0 [] [] = Some r))
   \<and> (read_pages execute tsf vf 0 [] [] = Some (Inr (ts, vs, m)) \<longrightarrow>
        0 < m \<and> short_page execute (m - 1) \<and> (\<forall>k < m - 1. \<not> short_page execute k))
   \<and> (fields_of tsf rows = Inr tsl \<and> fields_of vf rows = Inr vl \<longrightarrow>
        read_pages (paged rows) tsf vf 0 [] [] =
          Some (Inr (tsl, vl, length rows div batch_size + 1)))
   \<and> (fields_of tsf rows = Inr tsl \<and> fields_of vf rows = Inr vl \<and> length rows = 25000 \<longrightarrow>
        read_pages (paged rows) tsf vf 0 [] [] = Some (Inr (tsl, vl, 3))
        \<and> length tsl = 25000 \<and> length vl = 25000)
   \<and> (fields_of tsf rows = Inr tsl \<and> fields_of vf rows = Inr vl
        \<and> length rows = j * batch_size \<longrightarrow>
        read_pages (paged rows) tsf vf 0 [] [] = Some (Inr (tsl, vl, j + 1))
        \<and> page (paged rows) j = Inr [])
   \<and> ((\<exists>n. short_page (store (build_search self)) n) \<longrightarrow>
        (\<exists>out. TsReader_read store string2date self = Some out))
   \<and> page execute i = execute (i * 10000) ((i + 1) * 10000)"
proof (intro conjI impI)
  assume "\<exists>n. short_page execute n"
  then obtain n where "short_page execute n" by blast
  then have "page_stops execute tsf vf (0 + n)" by (simp add: short_page_stops)
  then show "\<exists>r. read_pages execute tsf vf 0 [] [] = Some r" by (rule read_pages_terminates)
next
  assume r: "read_pages execute tsf vf 0 [] [] = Some (Inr (ts, vs, m))"
  from read_pages_requests [OF r]
  show "0 < m" "short_page execute (m - 1)" "\<forall>k < m - 1. \<not> short_page execute k"
    by blast+
next
  assume "fields_of tsf rows = Inr tsl \<and> fields_of vf rows = Inr vl"
  then show "read_pages (paged rows) tsf vf 0 [] [] =
          Some (Inr (tsl, vl, length rows div batch_size + 1))"
    using read_pages_paged [of tsf rows tsl vf vl 0 "[]" "[]"] by simp
next
  assume a: "fields_of tsf rows = Inr tsl \<and> fields_of vf rows = Inr vl \<and> length rows = 25000"
  then have "read_pages (paged rows) tsf vf 0 [] [] =
          Some (Inr (tsl, vl, length rows div batch_size + 1))"
    using read_pages_paged [of tsf rows tsl vf vl 0 "[]" "[]"] by simp
  then show "read_pages (paged rows) tsf vf 0 [] [] = Some (Inr (tsl, vl, 3))"
    using a by (simp add: batch_size_def)
  show "length tsl = 25000" "length vl = 25000" using a fields_of_length by auto
next
  assume a: "fields_of tsf rows = Inr tsl \<and> fields_of vf rows = Inr vl
        \<and> length rows = j * batch_size"
  then have "read_pages (paged rows) tsf vf 0 [] [] =
          Some (Inr (tsl, vl, length rows div batch_size + 1))"
    using read_pages_paged [of tsf rows tsl vf vl 0 "[]" "[]"] by simp
  then show "read_pages (paged rows) tsf vf 0 [] [] = Some (Inr (tsl, vl, j + 1))"
    using a batch_size_pos by simp
  show "page (paged rows) j = Inr []" using a by (simp add: page_paged)
next
  assume "\<exists>n. short_page (store (build_search self)) n"
  then obtain n where "short_page (store (build_search self)) n" by blast
  then have "page_stops (store (build_search self)) (ts_field self) (value_field self) (0 + n)"
    by (simp add: short_page_stops)
  then obtain r where "read_pages (store (build_search self)) (ts_field self)
      (value_field self) 0 [] [] = Some r"
    using read_pages_terminates by blast
  from TsReader_read_returns [where execute = store and self = self
      and string2date = string2date, OF this]
  show "\<exists>out. TsReader_read store string2date self = Some out" .
next
  show "page execute i = execute (i * 10000) ((i + 1) * 10000)"
    by (simp add: page_def batch_size_def)
qed

theorem read_pages_pagination_witness:
  "read_pages (paged (replicate 25000 [''ts'' \<mapsto> PyStr ''t'', ''value'' \<mapsto> PyNum 1]))
       ''ts'' ''value'' 0 [] [] =
     Some (Inr (replicate 25000 (PyStr ''t''), replicate 25000 (PyNum 1), 3))
   \<and> read_pages (paged (replicate 20000 [''ts'' \<mapsto> PyStr ''t'', ''value'' \<mapsto> PyNum 1]))
       ''ts'' ''value'' 0 [] [] =
     Some (Inr (replicate 20000 (PyStr ''t''), replicate 20000 (PyNum 1), 3))"
proof -
  let ?h = "[''ts'' \<mapsto> PyStr ''t'', ''value'' \<mapsto> PyNum 1]"
  have t: "fields_of ''ts'' (replicate n ?h) = Inr (replicate n (PyStr ''t''))" for n
    unfolding fields_of_def by (rule map_raise_replicate) (simp add: py_lookup_def)
  have v: "fields_of ''value'' (replicate n ?h) = Inr (replicate n (PyNum 1))" for n
    unfolding fields_of_def by (rule map_raise_replicate) (simp add: py_lookup_def)
  have l1: "length (replicate 25000 ?h) = 25000" by simp
  have l2: "length (replicate 20000 ?h) = 2 * batch_size" by (simp add: batch_size_def)
  have a: "read_pages (paged (replicate 25000 ?h)) ''ts'' ''value'' 0 [] [] =
     Some (Inr (replicate 25000 (PyStr ''t''), replicate 25000 (PyNum 1), 3))"
    using read_pages_pagination [where tsf = "''ts''" and vf = "''value''"
        and rows = "replicate 25000 ?h" and tsl = "replicate 25000 (PyStr ''t'')"
        and vl = "replicate 25000 (PyNum 1)"] t v l1
    by blast
  have b: "read_pages (paged (replicate 20000 ?h)) ''ts'' ''value'' 0 [] [] =
     Some (Inr (replicate 20000 (PyStr ''t''), replicate 20000 (PyNum 1), 2 + 1))"
    using read_pages_pagination [where tsf = "''ts''" and vf = "''value''"
        and rows = "replicate 20000 ?h" and tsl = "replicate 20000 (PyStr ''t'')"
        and vl = "replicate 20000 (PyNum 1)" and j = 2] t v l2
    by blast
  from a b show ?thesis by simp
qed

text \<open>
  Claim C10. Whenever \<^verbatim>\<open>_read\<close> returns normally, the list of timestamps and the list
  of values have the same length, whatever the store answers. If the first page is
  empty the two lists are empty. For a store that serves the pages of a fixed sequence
  of rows, both lists are as long as the sequence of rows.
\<close>

theorem TsReader_read_pairs:
  "(TsReader_read execute string2date self = Some (Inr (timestamps, values), self')
      \<longrightarrow> length timestamps = length values)
   \<and> (page (execute (build_search self)) 0 = Inr []
      \<longrightarrow> TsReader_read execute string2date self = Some (Inr ([], []), self))
   \<and> (fields_of (ts_field self) rows = Inr tsl \<and> fields_of (value_field self) rows = Inr vl
       \<and> map_raise string2date tsl = Inr ds
      \<longrightarrow> (\<exists>self'. TsReader_read (\<lambda>s. paged rows) string2date self = Some (Inr (ds, vl), self'))
          \<and> length ds = length rows \<and> length vl = length rows)"
proof (intro conjI impI)
  assume r: "TsReader_read execute string2date self = Some (Inr (timestamps, values), self')"
  let ?rp = "read_pages (execute (build_search self)) (ts_field self) (value_field self) 0 [] []"
  show "length timestamps = length values"
  proof (cases ?rp)
    case None
    from TsReader_read_none [where execute = execute and self = self
        and string2date = string2date, OF this] r
    show ?thesis by simp
  next
    case (Some res)
    show ?thesis
    proof (cases res)
      case (Inl e)
      with Some have "?rp = Some (Inl e)" by simp
      from TsReader_read_error [where execute = execute and self = self
          and string2date = string2date, OF this] r
      show ?thesis by simp
    next
      case (Inr t)
      obtain ts vs m where t: "t = (ts, vs, m)" by (cases t) auto
      have rp: "?rp = Some (Inr (ts, vs, m))" using Some Inr t by simp
      have len: "length ts = length vs" using read_pages_requests [OF rp] by simp
      from TsReader_read_rows [where execute = execute and self = self
          and string2date = string2date, OF rp] r
      have "map_raise string2date ts = Inr timestamps \<and> values = vs"
        by (cases "map_raise string2date ts") auto
      then show ?thesis using len map_raise_length by fastforce
    qed
  qed
next
  assume p: "page (execute (build_search self)) 0 = Inr []"
  have "read_pages (execute (build_search self)) (ts_field self) (value_field self) 0 [] []
      = Some (Inr ([] @ [], [] @ [], 0 + 1))"
    using read_pages_step [OF p, of "ts_field self" "[]" "value_field self" "[]" "[]" "[]"]
      batch_size_pos
    by (simp add: fields_of_def)
  then show "TsReader_read execute string2date self = Some (Inr ([], []), self)"
    using TsReader_read_rows [where execute = execute and self = self
        and string2date = string2date and ts = "[]" and vs = "[]" and m = 1] by simp
next
  assume a: "fields_of (ts_field self) rows = Inr tsl \<and> fields_of (value_field self) rows = Inr vl
       \<and> map_raise string2date tsl = Inr ds"
  then have "read_pages (paged rows) (ts_field self) (value_field self) 0 [] [] =
      Some (Inr (tsl, vl, length rows div batch_size + 1))"
    using read_pages_paged [of "ts_field self" rows tsl "value_field self" vl 0 "[]" "[]"] by simp
  from TsReader_read_rows [where execute = "\<lambda>s. paged rows" and self = self
      and string2date = string2date, OF this] a
  show "\<exists>self'. TsReader_read (\<lambda>s. paged rows) string2date self = Some (Inr (ds, vl), self')"
    by simp
  show "length ds = length rows" using a map_raise_length fields_of_length by fastforce
  show "length vl = length rows" using a fields_of_length by blast
qed

theorem TsReader_read_pairs_witness:
  "\<exists>self'. TsReader_read
      (\<lambda>s. paged [[''ts'' \<mapsto> PyStr ''a'', ''value'' \<mapsto> PyNum 1],
                  [''ts'' \<mapsto> PyStr ''b'', ''value'' \<mapsto> PyNum 2]])
      Inr (TsReader_init ''idx'' ''ts'' ''value'' (PyStr '''') (PyStr ''''))
    = Some (Inr ([PyStr ''a'', PyStr ''b''], [PyNum 1, PyNum 2]), self')"
  using TsReader_read_pairs [where self = "TsReader_init ''idx'' ''ts'' ''value'' (PyStr '''') (PyStr '''')"
      and rows = "[[''ts'' \<mapsto> PyStr ''a'', ''value'' \<mapsto> PyNum 1],
                  [''ts'' \<mapsto> PyStr ''b'', ''value'' \<mapsto> PyNum 2]]"
      and tsl = "[PyStr ''a'', PyStr ''b'']" and vl = "[PyNum 1, PyNum 2]"
      and string2date = Inr and ds = "[PyStr ''a'', PyStr ''b'']"]
  by (simp add: fields_of_def py_lookup_def TsReader_init_def)

lemma build_search_filters:
  "s_filters (build_search self) =
     (if truthy (from_ts self) then [(ts_field self, Gte, from_ts self)] else [])
     @ (if truthy (to_ts self) then [(ts_field self, Lt, to_ts self)] else [])
     @ (if truthy (latest_ts self) then [(ts_field self, Gt, latest_ts self)] else [])"
  by (simp add: build_search_def search_filter_def Let_def)

lemma build_search_sort: "s_sort (build_search self) = ts_field self"
  by (simp add: build_search_def search_filter_def Let_def)

lemma fields_of_doc_hit:
  assumes "tsf \<noteq> vf"
  shows "fields_of tsf (map (doc_hit tsf vf) rows) = Inr (map fst rows)"
    and "fields_of vf (map (doc_hit tsf vf) rows) = Inr (map snd rows)"
  using assms by (induction rows) (auto simp: fields_of_def doc_hit_def py_lookup_def)

lemma index_store_paged:
  "index_store key tsf vf docs s = paged (map (doc_hit tsf vf) (index_rows key tsf docs s))"
  by (intro ext) (simp add: index_store_def)

lemma read_pages_index_store:
  assumes "tsf \<noteq> vf"
  shows "read_pages (index_store key tsf vf docs s) tsf vf 0 [] [] =
     Some (Inr (map fst (index_rows key tsf docs s), map snd (index_rows key tsf docs s),
                length (index_rows key tsf docs s) div batch_size + 1))"
proof -
  let ?rows = "index_rows key tsf docs s"
  have "read_pages (paged (map (doc_hit tsf vf) ?rows)) tsf vf 0 [] [] =
     Some (Inr ([] @ drop (0 * batch_size) (map fst ?rows),
                [] @ drop (0 * batch_size) (map snd ?rows),
                length (map (doc_hit tsf vf) ?rows) div batch_size + 1))"
    by (rule read_pages_paged [OF fields_of_doc_hit(1) [OF assms] fields_of_doc_hit(2) [OF assms]])
       simp
  then show ?thesis unfolding index_store_paged by simp
qed

lemma TsReader_read_index_store:
  assumes "tsf \<noteq> vf" "ts_field self = tsf" "value_field self = vf"
  shows "TsReader_read (index_store key tsf vf docs) string2date self =
     (let rows = index_rows key tsf docs (build_search self) in
      Some (case map_raise string2date (map fst rows) of
              Inl e \<Rightarrow> Inl e | Inr ds \<Rightarrow> Inr (ds, map snd rows),
            if rows = [] then self else self\<lparr>latest_ts := fst (last rows)\<rparr>))"
proof -
  let ?rows = "index_rows key tsf docs (build_search self)"
  have "read_pages (index_store key tsf vf docs (build_search self)) (ts_field self)
      (value_field self) 0 [] [] =
     Some (Inr (map fst ?rows, map snd ?rows, length ?rows div batch_size + 1))"
    using read_pages_index_store [OF assms(1)] assms(2,3) by simp
  from TsReader_read_rows [where execute = "index_store key tsf vf docs" and self = self
      and string2date = string2date, OF this]
  show ?thesis by (simp add: Let_def last_map)
qed

lemma sorted_key_last_max:
  assumes "sorted (map f xs)" "x \<in> set xs"
  shows "f x \<le> f (last xs)"
proof -
  from assms(2) obtain i where i: "i < length xs" "xs ! i = x" by (auto simp: in_set_conv_nth)
  then have ne: "xs \<noteq> []" by auto
  have "map f xs ! i \<le> map f xs ! (length xs - 1)"
    using assms(1) i(1) by (intro sorted_nth_mono) auto
  then show ?thesis using i ne by (simp add: last_conv_nth)
qed

lemma index_rows_set:
  "set (index_rows key tsf docs s) = {d \<in> set docs. doc_matches key tsf s d}"
  by (simp add: index_rows_def Let_def)

lemma index_rows_sorted:
  "s_sort s = tsf \<Longrightarrow> sorted (map (\<lambda>d. key (fst d)) (index_rows key tsf docs s))"
  by (simp add: index_rows_def Let_def)

lemma doc_matches_build_search:
  "doc_matches key (ts_field self) (build_search self) d \<longleftrightarrow>
     (truthy (from_ts self) \<longrightarrow> key (from_ts self) \<le> key (fst d))
     \<and> (truthy (to_ts self) \<longrightarrow> key (fst d) < key (to_ts self))
     \<and> (truthy (latest_ts self) \<longrightarrow> key (latest_ts self) < key (fst d))"
  by (simp add: doc_matches_def build_search_filters)

lemma second_read_empty:
  assumes "ts_field self = tsf" "\<forall>d \<in> set docs. truthy (fst d)"
    and "index_rows key tsf docs (build_search self) \<noteq> []"
  shows "index_rows key tsf docs
           (build_search (self\<lparr>latest_ts := fst (last (index_rows key tsf docs (build_search self)))\<rparr>))
         = []"
proof -
  let ?rows = "index_rows key tsf docs (build_search self)"
  let ?top = "last ?rows"
  let ?self' = "self\<lparr>latest_ts := fst ?top\<rparr>"
  have top_in: "?top \<in> set ?rows" using assms(3) by simp
  then have top_doc: "?top \<in> set docs" and top_m: "doc_matches key tsf (build_search self) ?top"
    unfolding index_rows_set by simp_all
  have tr: "truthy (fst ?top)" using assms(2) top_doc by blast
  have srt: "sorted (map (\<lambda>d. key (fst d)) ?rows)"
    using assms(1) by (intro index_rows_sorted) (simp add: build_search_sort)
  have "set (index_rows key tsf docs (build_search ?self')) = {}"
  proof (rule ccontr)
    assume "set (index_rows key tsf docs (build_search ?self')) \<noteq> {}"
    then obtain d where d: "d \<in> set docs" "doc_matches key tsf (build_search ?self') d"
      unfolding index_rows_set by blast
    have f': "ts_field ?self' = tsf" using assms(1) by simp
    from d(2) have m': "(truthy (from_ts self) \<longrightarrow> key (from_ts self) \<le> key (fst d))
       \<and> (truthy (to_ts self) \<longrightarrow> key (fst d) < key (to_ts self))
       \<and> key (fst ?top) < key (fst d)"
      using doc_matches_build_search [of key ?self' d] f' tr by simp
    from top_m have mt: "truthy (latest_ts self) \<longrightarrow> key (latest_ts self) < key (fst ?top)"
      using doc_matches_build_search [of key self ?top] assms(1) by simp
    have "doc_matches key tsf (build_search self) d"
      using doc_matches_build_search [of key self d] assms(1) m' mt by auto
    then have "d \<in> set ?rows" using d(1) unfolding index_rows_set by simp
    then have "key (fst d) \<le> key (fst ?top)" using srt by (rule sorted_key_last_max [rotated])
    with m' show False by (meson leD)
  qed
  then show ?thesis by simp
qed

lemma index_store_idempotent:
  assumes "tsf \<noteq> vf" "ts_field self = tsf" "value_field self = vf"
    and "\<forall>d \<in> set docs. truthy (fst d)"
  shows "\<exists>out self1. TsReader_read (index_store key tsf vf docs) string2date self = Some (out, self1)
     \<and> TsReader_read (index_store key tsf vf docs) string2date self1 = Some (Inr ([], []), self1)"
proof -
  let ?store = "index_store key tsf vf docs"
  let ?rows = "index_rows key tsf docs (build_search self)"
  let ?self1 = "if ?rows = [] then self else self\<lparr>latest_ts := fst (last ?rows)\<rparr>"
  obtain out where first: "TsReader_read ?store string2date self = Some (out, ?self1)"
    using TsReader_read_index_store [OF assms(1-3), of key docs string2date]
    by (simp add: Let_def)
  have f1: "ts_field ?self1 = tsf" "value_field ?self1 = vf" using assms(2,3) by auto
  have e: "index_rows key tsf docs (build_search ?self1) = []"
  proof (cases "?rows = []")
    case True
    then show ?thesis by simp
  next
    case False
    then show ?thesis using second_read_empty [OF assms(2,4) False] by simp
  qed
  have "TsReader_read ?store string2date ?self1 = Some (Inr ([], []), ?self1)"
    using TsReader_read_index_store [OF assms(1) f1, of key docs string2date] e
    by (simp add: Let_def)
  with first show ?thesis by blast
qed

text \<open>
  Claim C5, as amended. The reader is the state; its \<open>latest_ts\<close> is the high-water mark.
  The claim says that the mark moves only when the read succeeds. But \<^verbatim>\<open>_read\<close> calls
  \<^verbatim>\<open>set_latest\<close> before it converts the timestamps, so a read that raises in the
  conversion has moved the mark already. What holds: if a page request raises, after
  pages that were all full, \<^verbatim>\<open>_read\<close> raises the same exception and the reader is as
  before. Whenever \<^verbatim>\<open>_read\<close> returns or raises with a changed reader, every page
  request had succeeded, at least one timestamp was read, the change is that
  \<open>latest_ts\<close> is the last timestamp read, and the outcome is that of the conversion.
  When the loop returns rows, \<open>latest_ts\<close> is the last timestamp read (the reader is
  unchanged if there are no rows), whether the conversion then returns or raises. For
  an index of documents with truthy timestamps that does not change between the calls,
  a second \<^verbatim>\<open>_read\<close> returns two empty lists and leaves the reader as the first call
  left it.
\<close>

theorem TsReader_read_high_water_mark:
  fixes key :: "pyval \<Rightarrow> 'k::linorder"
  shows
  "((\<forall>k<n. \<not> page_stops (store (build_search self)) (ts_field self) (value_field self) k)
      \<and> page (store (build_search self)) n = Inl e
     \<longrightarrow> TsReader_read store string2date self = Some (Inl e, self))
   \<and> (TsReader_read store string2date self = Some (out, self') \<longrightarrow>
        self' = self
        \<or> (\<exists>ts vs m. read_pages (store (build_search self)) (ts_field self) (value_field self)
                        0 [] [] = Some (Inr (ts, vs, m))
              \<and> (\<forall>k<m. \<exists>res. page (store (build_search self)) k = Inr res)
              \<and> ts \<noteq> [] \<and> self' = self\<lparr>latest_ts := last ts\<rparr>
              \<and> out = (case map_raise string2date ts of
                         Inl e \<Rightarrow> Inl e | Inr ds \<Rightarrow> Inr (ds, vs))))
   \<and> (read_pages (store (build_search self)) (ts_field self) (value_field self) 0 [] []
         = Some (Inr (ts, vs, m))
       \<longrightarrow> TsReader_read store string2date self =
             Some (case map_raise string2date ts of Inl e \<Rightarrow> Inl e | Inr ds \<Rightarrow> Inr (ds, vs),
                   if ts = [] then self else self\<lparr>latest_ts := last ts\<rparr>))
   \<and> (read_pages (store (build_search self)) (ts_field self) (value_field self) 0 [] []
         = Some (Inr (ts, vs, m))
        \<and> map_raise string2date ts = Inl e
       \<longrightarrow> ts \<noteq> []
           \<and> TsReader_read store string2date self = Some (Inl e, self\<lparr>latest_ts := last ts\<rparr>))
   \<and> (tsf \<noteq> vf \<and> ts_field self = tsf \<and> value_field self = vf
        \<and> (\<forall>d \<in> set docs. truthy (fst d))
       \<longrightarrow> (\<exists>out self1.
              TsReader_read (index_store key tsf vf docs) string2date self = Some (out, self1)
              \<and> TsReader_read (index_store key tsf vf docs) string2date self1
                  = Some (Inr ([], []), self1)))"
proof (intro conjI impI)
  assume a: "(\<forall>k<n. \<not> page_stops (store (build_search self)) (ts_field self) (value_field self) k)
      \<and> page (store (build_search self)) n = Inl e"
  then have "read_pages (store (build_search self)) (ts_field self) (value_field self) 0 [] []
      = Some (Inl e)"
    by (intro read_pages_page_fails [of n]) simp_all
  from TsReader_read_error [where execute = store and self = self
      and string2date = string2date, OF this]
  show "TsReader_read store string2date self = Some (Inl e, self)" .
next
  assume r: "TsReader_read store string2date self = Some (out, self')"
  let ?rp = "read_pages (store (build_search self)) (ts_field self) (value_field self) 0 [] []"
  show "self' = self
        \<or> (\<exists>ts vs m. ?rp = Some (Inr (ts, vs, m))
              \<and> (\<forall>k<m. \<exists>res. page (store (build_search self)) k = Inr res)
              \<and> ts \<noteq> [] \<and> self' = self\<lparr>latest_ts := last ts\<rparr>
              \<and> out = (case map_raise string2date ts of
                         Inl e \<Rightarrow> Inl e | Inr ds \<Rightarrow> Inr (ds, vs)))"
  proof (cases ?rp)
    case None
    from TsReader_read_none [where execute = store and self = self
        and string2date = string2date, OF this] r
    show ?thesis by simp
  next
    case (Some res)
    show ?thesis
    proof (cases res)
      case (Inl e)
      with Some have "?rp = Some (Inl e)" by simp
      from TsReader_read_error [where execute = store and self = self
          and string2date = string2date, OF this] r
      show ?thesis by simp
    next
      case (Inr t)
      obtain ts vs m where t: "t = (ts, vs, m)" by (cases t) auto
      have rp: "?rp = Some (Inr (ts, vs, m))" using Some Inr t by simp
      have pages: "\<forall>k<m. \<exists>res. page (store (build_search self)) k = Inr res"
        using read_pages_requests [OF rp] by blast
      from TsReader_read_rows [where execute = store and self = self
          and string2date = string2date, OF rp] r
      have s: "self' = (if ts = [] then self else self\<lparr>latest_ts := last ts\<rparr>)"
        and o: "out = (case map_raise string2date ts of
                         Inl e \<Rightarrow> Inl e | Inr ds \<Rightarrow> Inr (ds, vs))"
        by simp_all
      show ?thesis
      proof (cases "ts = []")
        case True
        then show ?thesis using s by simp
      next
        case False
        with s have "self' = self\<lparr>latest_ts := last ts\<rparr>" by simp
        with rp pages False o show ?thesis by blast
      qed
    qed
  qed
next
  assume rp: "read_pages (store (build_search self)) (ts_field self) (value_field self) 0 [] []
         = Some (Inr (ts, vs, m))"
  from TsReader_read_rows [where execute = store and self = self
      and string2date = string2date, OF rp]
  show "TsReader_read store string2date self =
             Some (case map_raise string2date ts of Inl e \<Rightarrow> Inl e | Inr ds \<Rightarrow> Inr (ds, vs),
                   if ts = [] then self else self\<lparr>latest_ts := last ts\<rparr>)" .
next
  assume a: "read_pages (store (build_search self)) (ts_field self) (value_field self) 0 [] []
         = Some (Inr (ts, vs, m))
        \<and> map_raise string2date ts = Inl e"
  from a show ne: "ts \<noteq> []" by auto
  from TsReader_read_rows [where execute = store and self = self
      and string2date = string2date, OF a [THEN conjunct1]] ne a [THEN conjunct2]
  show "TsReader_read store string2date self = Some (Inl e, self\<lparr>latest_ts := last ts\<rparr>)"
    by simp
next
  assume "tsf \<noteq> vf \<and> ts_field self = tsf \<and> value_field self = vf
        \<and> (\<forall>d \<in> set docs. truthy (fst d))"
  then show "\<exists>out self1.
              TsReader_read (index_store key tsf vf docs) string2date self = Some (out, self1)
              \<and> TsReader_read (index_store key tsf vf docs) string2date self1
                  = Some (Inr ([], []), self1)"
    by (intro index_store_idempotent) simp_all
qed

theorem TsReader_read_high_water_mark_witness:
  "TsReader_read (\<lambda>s lo hi. Inl StoreError) Inr
       (TsReader_init ''idx'' ''ts'' ''value'' (PyStr '''') (PyStr ''''))
     = Some (Inl StoreError, TsReader_init ''idx'' ''ts'' ''value'' (PyStr '''') (PyStr ''''))
   \<and> (\<exists>out self1.
        TsReader_read (index_store (\<lambda>v. case v of PyNum x \<Rightarrow> x | _ \<Rightarrow> 0) ''ts'' ''value''
                         [(PyNum 20, PyNum 7), (PyNum 10, PyNum 5)]) Inr
            (TsReader_init ''idx'' ''ts'' ''value'' (PyStr '''') (PyStr ''''))
          = Some (out, self1)
        \<and> TsReader_read (index_store (\<lambda>v. case v of PyNum x \<Rightarrow> x | _ \<Rightarrow> 0) ''ts'' ''value''
                         [(PyNum 20, PyNum 7), (PyNum 10, PyNum 5)]) Inr self1
          = Some (Inr ([], []), self1))"
proof
  let ?self = "TsReader_init ''idx'' ''ts'' ''value'' (PyStr '''') (PyStr '''')"
  show "TsReader_read (\<lambda>s lo hi. Inl StoreError) Inr ?self = Some (Inl StoreError, ?self)"
    using TsReader_read_high_water_mark [where store = "\<lambda>s lo hi. Inl StoreError" and n = 0
        and self = ?self and e = StoreError and string2date = Inr
        and key = "\<lambda>v. 0 :: nat", THEN conjunct1]
    by (simp add: page_def)
next
  let ?self = "TsReader_init ''idx'' ''ts'' ''value'' (PyStr '''') (PyStr '''')"
  let ?key = "\<lambda>v. case v of PyNum x \<Rightarrow> x | _ \<Rightarrow> (0 :: rat)"
  let ?docs = "[(PyNum 20, PyNum 7), (PyNum 10, PyNum 5)]"
  have "''ts'' \<noteq> ''value'' \<and> ts_field ?self = ''ts'' \<and> value_field ?self = ''value''
        \<and> (\<forall>d \<in> set ?docs. truthy (fst d))"
    by (simp add: TsReader_init_def)
  with TsReader_read_high_water_mark [where tsf = "''ts''" and vf = "''value''" and self = ?self
        and docs = ?docs and key = ?key and string2date = Inr,
        THEN conjunct2, THEN conjunct2, THEN conjunct2, THEN conjunct2]
  show "\<exists>out self1.
        TsReader_read (index_store ?key ''ts'' ''value'' ?docs) Inr ?self = Some (out, self1)
        \<and> TsReader_read (index_store ?key ''ts'' ''value'' ?docs) Inr self1
          = Some (Inr ([], []), self1)"
    by blast
qed

text \<open>
  The store holds one row, whose timestamp is not in the format \<^verbatim>\<open>_string2date\<close>
  expects. Every page request succeeds; the read raises \<^verbatim>\<open>ValueError\<close> in the
  conversion, and the mark has moved from \<^verbatim>\<open>None\<close> to that timestamp.
\<close>

theorem TsReader_read_high_water_mark_counterexample:
  "TsReader_read (\<lambda>s. paged [[''ts'' \<mapsto> PyStr ''2021-01-01'', ''value'' \<mapsto> PyNum 1]])
       (\<lambda>v. if v = PyStr ''2021-01-01T00:00:00.000Z'' then Inr (1609459200 :: int)
             else Inl ValueError)
       (TsReader_init ''idx'' ''ts'' ''value'' (PyStr '''') (PyStr ''''))
     = Some (Inl ValueError,
             \<lparr>index_name = ''idx'', ts_field = ''ts'', value_field = ''value'',
              latest_ts = PyStr ''2021-01-01'', from_ts = PyStr '''', to_ts = PyStr ''''\<rparr>)
   \<and> latest_ts (TsReader_init ''idx'' ''ts'' ''value'' (PyStr '''') (PyStr '''')) = PyNone"
proof -
  let ?rows = "[[''ts'' \<mapsto> PyStr ''2021-01-01'', ''value'' \<mapsto> PyNum 1]]"
  let ?self = "TsReader_init ''idx'' ''ts'' ''value'' (PyStr '''') (PyStr '''')"
  have "read_pages (paged ?rows) ''ts'' ''value'' 0 [] []
      = Some (Inr ([PyStr ''2021-01-01''], [PyNum 1], 1))"
    by (subst read_pages.simps)
       (simp add: paged_def batch_size_def py_lookup_def)
  then have "read_pages (paged ?rows) (ts_field ?self) (value_field ?self) 0 [] []
      = Some (Inr ([PyStr ''2021-01-01''], [PyNum 1], 1))"
    by (simp add: TsReader_init_def)
  from TsReader_read_rows [where execute = "\<lambda>s. paged ?rows" and self = ?self
      and string2date = "\<lambda>v. if v = PyStr ''2021-01-01T00:00:00.000Z''
                          then Inr (1609459200 :: int) else Inl ValueError", OF this]
  show ?thesis by (simp add: TsReader_init_def)
qed

section \<open>Properties of the bucket resampler\<close>

lemma response_0: "response rt first 0 = rt first"
  by (simp add: response_def)

lemma request_ts_shift:
  "request_ts rt first (Suc k) = request_ts rt (request_ts rt first (Suc 0)) k"
  by (induction k) (simp_all split: sum.splits)

lemma response_shift:
  assumes "rt first = Inr (nvs, nts)" "nts \<noteq> []"
  shows "response rt first (Suc k) = response rt (last nts) k"
proof -
  have "request_ts rt first (Suc 0) = last nts" using assms by simp
  then show ?thesis unfolding response_def using request_ts_shift [of rt first k] by simp
qed

lemma stitched_Suc_shift:
  "stitched f (Suc n) = butlast (f 0) @ stitched (\<lambda>k. f (Suc k)) n"
proof -
  have "[0 ..< Suc n] = 0 # map Suc [0 ..< n]"
    by (simp add: upt_conv_Cons map_Suc_upt del: upt_Suc)
  then show ?thesis by (simp add: stitched_def comp_def del: upt_Suc)
qed

lemma resample_loop_stop:
  assumes "rt first = Inr (nvs, nts)" "\<not> 1 < length nts"
  shows "resample_loop rt first vs ts = Some (Inr (ts @ nts, vs @ nvs))"
  using assms by (subst resample_loop.simps) simp

lemma resample_loop_error:
  assumes "rt first = Inl e"
  shows "resample_loop rt first vs ts = Some (Inl e)"
  using assms by (subst resample_loop.simps) simp

lemma resample_loop_step:
  assumes "rt first = Inr (nvs, nts)" "1 < length nts" "nvs \<noteq> []"
  shows "resample_loop rt first vs ts =
     resample_loop rt (last nts) (vs @ butlast nvs) (ts @ butlast nts)"
  using assms by (subst resample_loop.simps) (simp add: py_pop_def)

lemma resample_loop_pop_error:
  assumes "rt first = Inr ([], nts)" "1 < length nts"
  shows "resample_loop rt first vs ts = Some (Inl IndexError)"
  using assms by (subst resample_loop.simps) (simp add: py_pop_def)

lemma resample_loop_run:
  assumes "\<forall>k<n. \<exists>nvs nts. response rt first k = Inr (nvs, nts) \<and> nvs \<noteq> []
              \<and> 1 < length nts"
    and "response rt first n = Inr (nvs, nts)" "length nts \<le> 1"
  shows "resample_loop rt first vs ts =
     Some (Inr (ts @ stitched (\<lambda>k. resp_ts (response rt first k)) n,
                vs @ stitched (\<lambda>k. resp_vs (response rt first k)) n))"
  using assms
proof (induction n arbitrary: first vs ts)
  case 0
  then have "rt first = Inr (nvs, nts)" by (simp add: response_0)
  then show ?case using 0(3) resample_loop_stop [of rt first nvs nts vs ts]
    by (simp add: stitched_def resp_ts_def resp_vs_def response_0)
next
  case (Suc n)
  from Suc.prems(1) obtain nvs0 nts0 where r0: "rt first = Inr (nvs0, nts0)"
    "nvs0 \<noteq> []" "1 < length nts0"
    using response_0 [of rt first] by (metis zero_less_Suc)
  then have ne: "nts0 \<noteq> []" "nvs0 \<noteq> []" by auto
  have sh: "response rt first (Suc k) = response rt (last nts0) k" for k
    using response_shift [where rt = rt and first = first, OF r0(1) ne(1)] .
  have step: "resample_loop rt first vs ts =
     resample_loop rt (last nts0) (vs @ butlast nvs0) (ts @ butlast nts0)"
    using r0 ne by (intro resample_loop_step) auto
  have "resample_loop rt (last nts0) (vs @ butlast nvs0) (ts @ butlast nts0) =
     Some (Inr ((ts @ butlast nts0) @ stitched (\<lambda>k. resp_ts (response rt (last nts0) k)) n,
                (vs @ butlast nvs0) @ stitched (\<lambda>k. resp_vs (response rt (last nts0) k)) n))"
  proof (rule Suc.IH)
    show "\<forall>k<n. \<exists>nvs nts. response rt (last nts0) k = Inr (nvs, nts)
        \<and> nvs \<noteq> [] \<and> 1 < length nts"
      using Suc.prems(1) sh by (metis Suc_less_eq)
    show "response rt (last nts0) n = Inr (nvs, nts)" using Suc.prems(2) sh by simp
    show "length nts \<le> 1" by (rule Suc.prems(3))
  qed
  moreover have "stitched (\<lambda>k. resp_ts (response rt first k)) (Suc n) =
      butlast nts0 @ stitched (\<lambda>k. resp_ts (response rt (last nts0) k)) n"
    unfolding stitched_Suc_shift sh using r0(1) by (simp add: resp_ts_def response_0)
  moreover have "stitched (\<lambda>k. resp_vs (response rt first k)) (Suc n) =
      butlast nvs0 @ stitched (\<lambda>k. resp_vs (response rt (last nts0) k)) n"
    unfolding stitched_Suc_shift sh using r0(1) by (simp add: resp_vs_def response_0)
  ultimately show ?case using step by simp
qed

lemma stitched_0: "stitched f 0 = f 0"
  by (simp add: stitched_def)

lemma stitched_Suc_overlap:
  assumes "f n \<noteq> []" "f (Suc n) \<noteq> []" "hd (f (Suc n)) = last (f n)"
  shows "stitched f (Suc n) = stitched f n @ tl (f (Suc n))"
proof -
  have "f (Suc n) = last (f n) # tl (f (Suc n))"
    using assms(2,3) by (metis list.collapse)
  then have "butlast (f n) @ f (Suc n) = f n @ tl (f (Suc n))"
    using assms(1) by (metis append.assoc append_Cons append_Nil append_butlast_last_id)
  then show ?thesis by (simp add: stitched_def)
qed

lemma sorted_wrt_less_last:
  fixes xs :: "('a::linorder) list"
  assumes "sorted_wrt (<) xs" "x \<in> set xs"
  shows "x \<le> last xs"
proof -
  from assms(2) obtain i where i: "i < length xs" "xs ! i = x" by (auto simp: in_set_conv_nth)
  show ?thesis
  proof (cases "i = length xs - 1")
    case True
    then show ?thesis using i by (metis last_conv_nth length_0_conv less_nat_zero_code order_refl)
  next
    case False
    then have "i < length xs - 1" using i(1) by simp
    then have "xs ! i < xs ! (length xs - 1)"
      using sorted_wrt_nth_less [OF assms(1), of i "length xs - 1"] i(1) by simp
    then show ?thesis using i by (metis last_conv_nth length_0_conv less_imp_le less_nat_zero_code)
  qed
qed

lemma stitched_overlap:
  fixes f :: "nat \<Rightarrow> ('a::linorder) list"
  assumes "\<forall>k<n. f k \<noteq> [] \<and> f (Suc k) \<noteq> [] \<and> hd (f (Suc k)) = last (f k)"
    and "\<forall>k\<le>n. sorted_wrt (<) (f k)"
  shows "sorted_wrt (<) (stitched f n) \<and> set (stitched f n) = (\<Union>k\<le>n. set (f k))
     \<and> (f n \<noteq> [] \<longrightarrow> last (stitched f n) = last (f n))"
  using assms
proof (induction n)
  case 0
  then show ?case by (simp add: stitched_0)
next
  case (Suc n)
  have IH: "sorted_wrt (<) (stitched f n)" "set (stitched f n) = (\<Union>k\<le>n. set (f k))"
    "last (stitched f n) = last (f n)"
    using Suc.IH Suc.prems by auto
  have ov: "f n \<noteq> []" "f (Suc n) \<noteq> []" "hd (f (Suc n)) = last (f n)"
    using Suc.prems(1) by auto
  have st: "stitched f (Suc n) = stitched f n @ tl (f (Suc n))"
    using ov by (rule stitched_Suc_overlap)
  have sn: "sorted_wrt (<) (f (Suc n))" using Suc.prems(2) by simp
  have fs: "f (Suc n) = last (f n) # tl (f (Suc n))" using ov(2,3) by (metis list.collapse)
  have tl_sorted: "sorted_wrt (<) (tl (f (Suc n)))"
    and tl_above: "\<forall>y \<in> set (tl (f (Suc n))). last (f n) < y"
    using sn fs by (metis sorted_wrt.simps(2))+
  have ne: "stitched f n \<noteq> []" using ov(1) by (simp add: stitched_def)
  have below: "\<forall>x \<in> set (stitched f n). x \<le> last (f n)"
    using sorted_wrt_less_last [OF IH(1)] IH(3) by auto
  have cross: "\<forall>x \<in> set (stitched f n). \<forall>y \<in> set (tl (f (Suc n))). x < y"
  proof (intro ballI)
    fix x y assume "x \<in> set (stitched f n)" "y \<in> set (tl (f (Suc n)))"
    then have "x \<le> last (f n)" "last (f n) < y" using below tl_above by blast+
    then show "x < y" by (rule le_less_trans)
  qed
  have 1: "sorted_wrt (<) (stitched f (Suc n))"
    unfolding st sorted_wrt_append using IH(1) tl_sorted cross by blast
  have lin: "last (f n) \<in> set (f n)" using ov(1) by simp
  have sset: "set (f (Suc n)) = insert (last (f n)) (set (tl (f (Suc n))))"
    using fs by (metis list.simps(15))
  have "set (stitched f (Suc n)) = (\<Union>k\<le>n. set (f k)) \<union> set (tl (f (Suc n)))"
    unfolding st using IH(2) by simp
  also have "\<dots> = (\<Union>k\<le>n. set (f k)) \<union> set (f (Suc n))"
    unfolding sset using lin by blast
  also have "\<dots> = (\<Union>k\<le>Suc n. set (f k))"
    by (simp add: atMost_Suc Un_commute)
  finally have 2: "set (stitched f (Suc n)) = (\<Union>k\<le>Suc n. set (f k))" .
  have 3: "last (stitched f (Suc n)) = last (f (Suc n))"
  proof (cases "tl (f (Suc n)) = []")
    case True
    then have "f (Suc n) = [last (f n)]" using fs by simp
    then show ?thesis unfolding st using True IH(3) by simp
  next
    case False
    then show ?thesis unfolding st using fs by (metis last_appendR last_tl)
  qed
  from 1 2 3 show ?case by simp
qed

lemma response_stops_0:
  "response_stops rt first 0 \<longleftrightarrow>
     (case rt first of Inl e \<Rightarrow> True | Inr (nvs, nts) \<Rightarrow> \<not> 1 < length nts \<or> nvs = [])"
  by (simp add: response_stops_def response_0)

lemma resample_loop_stops_now:
  assumes "response_stops rt first 0"
  shows "\<exists>r. resample_loop rt first vs ts = Some r"
proof (cases "rt first")
  case (Inl e)
  then show ?thesis by (simp add: resample_loop_error)
next
  case (Inr p)
  obtain nvs nts where p: "p = (nvs, nts)" by (cases p) auto
  show ?thesis
  proof (cases "1 < length nts")
    case False
    then show ?thesis using resample_loop_stop [of rt first nvs nts vs ts] Inr p by simp
  next
    case True
    then have "nvs = []" using assms Inr p by (simp add: response_stops_0)
    then show ?thesis using resample_loop_pop_error [of rt first nts vs ts] Inr p True by simp
  qed
qed

lemma resample_loop_continues:
  assumes "\<not> response_stops rt first 0"
  shows "\<exists>nvs nts. rt first = Inr (nvs, nts) \<and> 1 < length nts \<and> nvs \<noteq> []
     \<and> resample_loop rt first vs ts =
         resample_loop rt (last nts) (vs @ butlast nvs) (ts @ butlast nts)
     \<and> (\<forall>k. response rt first (Suc k) = response rt (last nts) k)"
proof -
  from assms obtain nvs nts where r: "rt first = Inr (nvs, nts)" "1 < length nts" "nvs \<noteq> []"
    by (cases "rt first") (auto simp: response_stops_0)
  then have "nts \<noteq> []" by auto
  then have "\<forall>k. response rt first (Suc k) = response rt (last nts) k"
    using response_shift [where rt = rt and first = first, OF r(1)] by simp
  with r resample_loop_step [of rt first nvs nts vs ts] show ?thesis by simp
qed

lemma response_stops_shift:
  assumes "\<forall>k. response rt first (Suc k) = response rt first' k"
  shows "response_stops rt first (Suc k) = response_stops rt first' k"
  using assms by (simp add: response_stops_def)

lemma resample_loop_terminates:
  assumes "response_stops rt first n"
  shows "\<exists>r. resample_loop rt first vs ts = Some r"
  using assms
proof (induction n arbitrary: first vs ts)
  case 0
  then show ?case by (rule resample_loop_stops_now)
next
  case (Suc n)
  show ?case
  proof (cases "response_stops rt first 0")
    case True
    then show ?thesis by (rule resample_loop_stops_now)
  next
    case False
    from resample_loop_continues [OF False, of vs ts]
    obtain nvs nts where c: "resample_loop rt first vs ts =
         resample_loop rt (last nts) (vs @ butlast nvs) (ts @ butlast nts)"
      "\<forall>k. response rt first (Suc k) = response rt (last nts) k"
      by blast
    have "response_stops rt (last nts) n"
      using Suc.prems response_stops_shift [OF c(2)] by simp
    from Suc.IH [OF this, of "vs @ butlast nvs" "ts @ butlast nts"] c(1)
    show ?thesis by simp
  qed
qed

lemma resample_loop_returns_stops:
  assumes "resample_loop rt first vs ts = Some r"
  shows "\<exists>n. response_stops rt first n"
proof (rule resample_loop.raw_induct
    [where P = "\<lambda>rt first vs ts r. \<exists>n. response_stops rt first n", OF _ assms])
  fix f rt first vs ts r
  assume IH: "\<And>rt first vs ts r. f rt first vs ts = Some r \<Longrightarrow> \<exists>n. response_stops rt first n"
    and eq: "(case rt first of
        Inl e \<Rightarrow> Some (Inl e)
      | Inr (nvs, nts) \<Rightarrow>
          if 1 < length nts then
            (case py_pop nvs of
               Inl e \<Rightarrow> Some (Inl e)
             | Inr nvs' \<Rightarrow> f rt (last nts) (vs @ nvs') (ts @ butlast nts))
          else Some (Inr (ts @ nts, vs @ nvs))) = Some r"
  show "\<exists>n. response_stops rt first n"
  proof (cases "response_stops rt first 0")
    case True
    then show ?thesis by blast
  next
    case False
    from resample_loop_continues [OF False, of vs ts]
    obtain nvs nts where c: "rt first = Inr (nvs, nts)" "1 < length nts" "nvs \<noteq> []"
      "\<forall>k. response rt first (Suc k) = response rt (last nts) k"
      by blast
    with eq have "f rt (last nts) (vs @ butlast nvs) (ts @ butlast nts) = Some r"
      by (simp add: py_pop_def)
    then obtain n where "response_stops rt (last nts) n" using IH by blast
    then have "response_stops rt first (Suc n)"
      using response_stops_shift [OF c(4)] by simp
    then show ?thesis by blast
  qed
qed

lemma concat_map_upt_Suc_shift:
  "concat (map g [0 ..< Suc n]) = g 0 @ concat (map (\<lambda>k. g (Suc k)) [0 ..< n])"
proof -
  have "[0 ..< Suc n] = 0 # map Suc [0 ..< n]"
    by (simp add: upt_conv_Cons map_Suc_upt del: upt_Suc)
  then show ?thesis by (simp add: comp_def del: upt_Suc)
qed

lemma resample_loop_skip:
  assumes "\<forall>k<n. \<not> response_stops rt first k"
  shows "resample_loop rt first vs ts =
     resample_loop rt (request_ts rt first n)
       (vs @ concat (map (\<lambda>k. butlast (resp_vs (response rt first k))) [0 ..< n]))
       (ts @ concat (map (\<lambda>k. butlast (resp_ts (response rt first k))) [0 ..< n]))"
  using assms
proof (induction n arbitrary: first vs ts)
  case 0
  then show ?case by simp
next
  case (Suc n)
  have "\<not> response_stops rt first 0" using Suc.prems by simp
  from resample_loop_continues [OF this, of vs ts]
  obtain nvs nts where c: "rt first = Inr (nvs, nts)" "1 < length nts" "nvs \<noteq> []"
    "resample_loop rt first vs ts =
       resample_loop rt (last nts) (vs @ butlast nvs) (ts @ butlast nts)"
    "\<forall>k. response rt first (Suc k) = response rt (last nts) k"
    by blast
  have sh: "response rt first (Suc k) = response rt (last nts) k" for k using c(5) by simp
  have "\<forall>k<n. \<not> response_stops rt (last nts) k"
    using Suc.prems response_stops_shift [OF c(5)] by (metis Suc_less_eq)
  from Suc.IH [OF this, of "vs @ butlast nvs" "ts @ butlast nts"]
  have r: "resample_loop rt (last nts) (vs @ butlast nvs) (ts @ butlast nts) =
     resample_loop rt (request_ts rt (last nts) n)
       ((vs @ butlast nvs) @ concat (map (\<lambda>k. butlast (resp_vs (response rt (last nts) k))) [0 ..< n]))
       ((ts @ butlast nts) @ concat (map (\<lambda>k. butlast (resp_ts (response rt (last nts) k))) [0 ..< n]))" .
  have q: "request_ts rt first (Suc n) = request_ts rt (last nts) n"
  proof -
    have "nts \<noteq> []" using c(2) by auto
    then have "request_ts rt first (Suc 0) = last nts" using c(1) by simp
    then show ?thesis using request_ts_shift [of rt first n] by simp
  qed
  have r0: "resp_vs (response rt first 0) = nvs" "resp_ts (response rt first 0) = nts"
    using c(1) by (simp_all add: resp_vs_def resp_ts_def response_0)
  have pv: "concat (map (\<lambda>k. butlast (resp_vs (response rt first k))) [0 ..< Suc n]) =
      butlast nvs @ concat (map (\<lambda>k. butlast (resp_vs (response rt (last nts) k))) [0 ..< n])"
    unfolding concat_map_upt_Suc_shift sh r0 ..
  have pt: "concat (map (\<lambda>k. butlast (resp_ts (response rt first k))) [0 ..< Suc n]) =
      butlast nts @ concat (map (\<lambda>k. butlast (resp_ts (response rt (last nts) k))) [0 ..< n])"
    unfolding concat_map_upt_Suc_shift sh r0 ..
  show ?case unfolding c(4) r q pv pt append_assoc ..
qed

lemma resample_loop_result:
  assumes "resample_loop rt first [] [] = Some (Inr (ts, vs))"
  shows "\<exists>n. (\<forall>k<n. 1 < length (resp_ts (response rt first k)))
     \<and> length (resp_ts (response rt first n)) \<le> 1
     \<and> ts = stitched (\<lambda>k. resp_ts (response rt first k)) n
     \<and> vs = stitched (\<lambda>k. resp_vs (response rt first k)) n"
proof -
  define n where "n = (LEAST n. response_stops rt first n)"
  obtain n' where "response_stops rt first n'"
    using resample_loop_returns_stops [OF assms] by blast
  then have st: "response_stops rt first n" unfolding n_def by (rule LeastI)
  have before: "\<not> response_stops rt first k" if "k < n" for k
    using that not_less_Least unfolding n_def by blast
  have many: "1 < length (resp_ts (response rt first k))" if "k < n" for k
    using before [OF that]
    by (cases "response rt first k") (auto simp: response_stops_def resp_ts_def)
  let ?pv = "concat (map (\<lambda>k. butlast (resp_vs (response rt first k))) [0 ..< n])"
  let ?pt = "concat (map (\<lambda>k. butlast (resp_ts (response rt first k))) [0 ..< n])"
  have "resample_loop rt first [] [] =
      resample_loop rt (request_ts rt first n) ([] @ ?pv) ([] @ ?pt)"
    using before by (intro resample_loop_skip) simp
  with assms have at_n: "resample_loop rt (request_ts rt first n) ?pv ?pt = Some (Inr (ts, vs))"
    by simp
  have rn: "response rt first n = rt (request_ts rt first n)" by (simp add: response_def)
  show ?thesis
  proof (cases "response rt first n")
    case (Inl e)
    then have "resample_loop rt (request_ts rt first n) ?pv ?pt = Some (Inl e)"
      using rn by (intro resample_loop_error) simp
    with at_n show ?thesis by simp
  next
    case (Inr p)
    obtain nvs nts where p: "p = (nvs, nts)" by (cases p) auto
    have rq: "rt (request_ts rt first n) = Inr (nvs, nts)" using Inr p rn by simp
    show ?thesis
    proof (cases "1 < length nts")
      case True
      then have "nvs = []" using st Inr p by (simp add: response_stops_def)
      then have "resample_loop rt (request_ts rt first n) ?pv ?pt = Some (Inl IndexError)"
        using rq True by (intro resample_loop_pop_error) simp_all
      with at_n show ?thesis by simp
    next
      case False
      then have "resample_loop rt (request_ts rt first n) ?pv ?pt =
          Some (Inr (?pt @ nts, ?pv @ nvs))"
        using rq by (intro resample_loop_stop) simp_all
      with at_n have "ts = ?pt @ nts" "vs = ?pv @ nvs" by simp_all
      moreover have "resp_ts (response rt first n) = nts" "resp_vs (response rt first n) = nvs"
        using Inr p by (simp_all add: resp_ts_def resp_vs_def)
      ultimately have "ts = stitched (\<lambda>k. resp_ts (response rt first k)) n"
        "vs = stitched (\<lambda>k. resp_vs (response rt first k)) n"
        "length (resp_ts (response rt first n)) \<le> 1"
        using False by (simp_all add: stitched_def)
      with many show ?thesis by blast
    qed
  qed
qed

lemma distinct_count_list_1: "distinct xs \<Longrightarrow> x \<in> set xs \<Longrightarrow> count_list xs x = 1"
  by (induction xs) auto

lemma length_stitched_eq:
  assumes "\<forall>k\<le>n. length (f k) = length (g k)"
  shows "length (stitched f n) = length (stitched g n)"
proof -
  have "length (concat (map (\<lambda>k. butlast (f k)) [0 ..< m]))
      = length (concat (map (\<lambda>k. butlast (g k)) [0 ..< m]))" if "m \<le> n" for m
    using that
  proof (induction m)
    case 0
    then show ?case by simp
  next
    case (Suc m)
    then have "length (f m) = length (g m)" using assms by simp
    with Suc show ?case by simp
  qed
  then show ?thesis using assms by (simp add: stitched_def)
qed

text \<open>
  The loop over any function in the place of \<^verbatim>\<open>read_ts_test\<close>: when it returns, what
  it returns, and that the output timestamps are distinct when the responses overlap
  by one bucket and are in increasing order.
\<close>

lemma resample_loop_overlap_general:
  fixes rt :: "('t::linorder) \<Rightarrow> error + 'v list \<times> 't list"
  shows
  "((\<exists>r. resample_loop rt first [] [] = Some r) \<longleftrightarrow> (\<exists>n. response_stops rt first n))
   \<and> (resample_loop rt first [] [] = Some (Inr (ts, vs)) \<longrightarrow>
        (\<exists>n. (\<forall>k<n. 1 < length (resp_ts (response rt first k)))
           \<and> length (resp_ts (response rt first n)) \<le> 1
           \<and> ts = stitched (\<lambda>k. resp_ts (response rt first k)) n
           \<and> vs = stitched (\<lambda>k. resp_vs (response rt first k)) n))
   \<and> ((\<forall>k<n. \<exists>nvs nts. response rt first k = Inr (nvs, nts) \<and> length nvs = length nts
                  \<and> 1 < length nts)
       \<and> (\<exists>nvs nts. response rt first n = Inr (nvs, nts) \<and> length nvs = length nts
                  \<and> length nts \<le> 1)
       \<and> (\<forall>k<n. resp_ts (response rt first (Suc k)) \<noteq> []
                  \<and> hd (resp_ts (response rt first (Suc k))) = last (resp_ts (response rt first k)))
       \<and> (\<forall>k\<le>n. sorted_wrt (<) (resp_ts (response rt first k)))
      \<longrightarrow> (\<exists>out_ts out_vs. resample_loop rt first [] [] = Some (Inr (out_ts, out_vs))
            \<and> out_ts = stitched (\<lambda>k. resp_ts (response rt first k)) n
            \<and> out_vs = stitched (\<lambda>k. resp_vs (response rt first k)) n
            \<and> sorted_wrt (<) out_ts \<and> distinct out_ts
            \<and> set out_ts = (\<Union>k\<le>n. set (resp_ts (response rt first k)))
            \<and> (\<forall>t \<in> set out_ts. count_list out_ts t = 1)
            \<and> length out_vs = length out_ts))"
proof (intro conjI impI)
  show "(\<exists>r. resample_loop rt first [] [] = Some r) \<longleftrightarrow> (\<exists>n. response_stops rt first n)"
  proof
    assume "\<exists>r. resample_loop rt first [] [] = Some r"
    then obtain r where "resample_loop rt first [] [] = Some r" by blast
    then show "\<exists>n. response_stops rt first n" by (rule resample_loop_returns_stops)
  next
    assume "\<exists>n. response_stops rt first n"
    then obtain m where "response_stops rt first m" by blast
    then show "\<exists>r. resample_loop rt first [] [] = Some r" by (rule resample_loop_terminates)
  qed
next
  assume "resample_loop rt first [] [] = Some (Inr (ts, vs))"
  then show "\<exists>n. (\<forall>k<n. 1 < length (resp_ts (response rt first k)))
           \<and> length (resp_ts (response rt first n)) \<le> 1
           \<and> ts = stitched (\<lambda>k. resp_ts (response rt first k)) n
           \<and> vs = stitched (\<lambda>k. resp_vs (response rt first k)) n"
    by (rule resample_loop_result)
next
  let ?T = "\<lambda>k. resp_ts (response rt first k)"
  let ?V = "\<lambda>k. resp_vs (response rt first k)"
  assume a: "(\<forall>k<n. \<exists>nvs nts. response rt first k = Inr (nvs, nts) \<and> length nvs = length nts
                  \<and> 1 < length nts)
       \<and> (\<exists>nvs nts. response rt first n = Inr (nvs, nts) \<and> length nvs = length nts
                  \<and> length nts \<le> 1)
       \<and> (\<forall>k<n. ?T (Suc k) \<noteq> [] \<and> hd (?T (Suc k)) = last (?T k))
       \<and> (\<forall>k\<le>n. sorted_wrt (<) (?T k))"
  note a1 = a [THEN conjunct1]
  note a2 = a [THEN conjunct2, THEN conjunct1]
  note a3 = a [THEN conjunct2, THEN conjunct2, THEN conjunct1]
  note srt = a [THEN conjunct2, THEN conjunct2, THEN conjunct2]
  from a2 obtain nvs nts where fin: "response rt first n = Inr (nvs, nts)"
    "length nvs = length nts" "length nts \<le> 1" by (elim exE conjE)
  have resp: "\<exists>nvs nts. response rt first k = Inr (nvs, nts) \<and> length nvs = length nts
      \<and> 1 < length nts" if "k < n" for k
    using a1 that by blast
  have cont: "\<forall>k<n. \<exists>nvs nts. response rt first k = Inr (nvs, nts) \<and> nvs \<noteq> []
                  \<and> 1 < length nts"
  proof (intro allI impI)
    fix k assume "k < n"
    from resp [OF this] obtain nvs nts where r: "response rt first k = Inr (nvs, nts)"
      "length nvs = length nts" "1 < length nts" by (elim exE conjE)
    from r(2,3) have "nvs \<noteq> []" by auto
    with r(1,3) show "\<exists>nvs nts. response rt first k = Inr (nvs, nts) \<and> nvs \<noteq> []
        \<and> 1 < length nts" by (intro exI conjI)
  qed
  have "resample_loop rt first [] [] = Some (Inr ([] @ stitched ?T n, [] @ stitched ?V n))"
    using cont fin(1,3) by (rule resample_loop_run)
  then have run: "resample_loop rt first [] [] = Some (Inr (stitched ?T n, stitched ?V n))"
    by (simp only: append_Nil)
  have lens: "\<forall>k\<le>n. length (?V k) = length (?T k)"
  proof (intro allI impI)
    fix k assume "k \<le> n"
    then consider "k < n" | "k = n" by linarith
    then show "length (?V k) = length (?T k)"
    proof cases
      case 1
      from resp [OF this] obtain nvs nts where "response rt first k = Inr (nvs, nts)"
        "length nvs = length nts" by (elim exE conjE)
      then show ?thesis by (simp add: resp_ts_def resp_vs_def)
    next
      case 2
      then show ?thesis using fin(1,2) by (simp add: resp_ts_def resp_vs_def)
    qed
  qed
  have ne: "?T k \<noteq> []" if "k < n" for k
  proof -
    from resp [OF that] obtain nvs nts where "response rt first k = Inr (nvs, nts)"
      "1 < length nts" by (elim exE conjE)
    then show ?thesis by (auto simp: resp_ts_def)
  qed
  have ov: "\<forall>k<n. ?T k \<noteq> [] \<and> ?T (Suc k) \<noteq> [] \<and> hd (?T (Suc k)) = last (?T k)"
  proof (intro allI impI)
    fix k assume k: "k < n"
    from a3 k have "?T (Suc k) \<noteq> [] \<and> hd (?T (Suc k)) = last (?T k)"
      by blast
    with ne [OF k] show "?T k \<noteq> [] \<and> ?T (Suc k) \<noteq> [] \<and> hd (?T (Suc k)) = last (?T k)"
      by blast
  qed
  have so: "sorted_wrt (<) (stitched ?T n) \<and> set (stitched ?T n) = (\<Union>k\<le>n. set (?T k))
     \<and> (?T n \<noteq> [] \<longrightarrow> last (stitched ?T n) = last (?T n))"
    using ov srt by (rule stitched_overlap)
  note s1 = so [THEN conjunct1]
  note s2 = so [THEN conjunct2, THEN conjunct1]
  have d: "distinct (stitched ?T n)" using s1 by (simp only: strict_sorted_iff)
  have c: "\<forall>t \<in> set (stitched ?T n). count_list (stitched ?T n) t = 1"
  proof
    fix t assume "t \<in> set (stitched ?T n)"
    with d show "count_list (stitched ?T n) t = 1" by (rule distinct_count_list_1)
  qed
  have l: "length (stitched ?V n) = length (stitched ?T n)"
    using lens by (rule length_stitched_eq)
  show "\<exists>out_ts out_vs. resample_loop rt first [] [] = Some (Inr (out_ts, out_vs))
            \<and> out_ts = stitched ?T n \<and> out_vs = stitched ?V n
            \<and> sorted_wrt (<) out_ts \<and> distinct out_ts
            \<and> set out_ts = (\<Union>k\<le>n. set (?T k))
            \<and> (\<forall>t \<in> set out_ts. count_list out_ts t = 1)
            \<and> length out_vs = length out_ts"
    by (intro exI [of _ "stitched ?T n"] exI [of _ "stitched ?V n"] conjI refl)
       (fact run, fact s1, fact d, fact s2, fact c, fact l)
qed

text \<open>
  What \<^verbatim>\<open>read_ts_test\<close> returns holds as many values as timestamps, so a response ends
  the loop exactly when it fails or holds at most one bucket.
\<close>

lemma response_read_ts_test:
  assumes "response (read_ts_test search) first k = Inr (nvs, nts)"
  shows "length nvs = length nts"
  using assms by (auto simp: response_def read_ts_test_def split: sum.splits)

lemma response_stops_read_ts_test:
  "response_stops (read_ts_test search) first n
     \<longleftrightarrow> length (resp_ts (response (read_ts_test search) first n)) \<le> 1"
proof (cases "response (read_ts_test search) first n")
  case (Inl e)
  then show ?thesis by (simp add: response_stops_def resp_ts_def)
next
  case (Inr p)
  obtain nvs nts where p: "p = (nvs, nts)" by (cases p)
  from Inr p have "length nvs = length nts" by (simp add: response_read_ts_test)
  with Inr p show ?thesis by (auto simp: response_stops_def resp_ts_def)
qed

lemma response_read_ts_test_buckets:
  assumes "\<not> isl (response (read_ts_test search) first k)"
  shows "\<exists>nvs nts. response (read_ts_test search) first k = Inr (nvs, nts)
           \<and> length nvs = length nts
           \<and> nts = resp_ts (response (read_ts_test search) first k)"
proof (cases "response (read_ts_test search) first k")
  case (Inl e)
  with assms show ?thesis by simp
next
  case (Inr p)
  obtain nvs nts where p: "p = (nvs, nts)" by (cases p)
  from Inr p have "length nvs = length nts" by (simp add: response_read_ts_test)
  with Inr p show ?thesis by (simp add: resp_ts_def)
qed

lemma resp_ts_long_not_isl:
  assumes "1 < length (resp_ts r)"
  shows "\<not> isl r"
  using assms by (cases r) (simp_all add: resp_ts_def)

text \<open>
  Claim C1. The responses are the answers to the requests the loop makes, each request
  starting at the last bucket timestamp of the answer before. The loop returns exactly
  when some response fails or holds at most one bucket. When it returns buckets, it
  has stopped at the first response of at most one bucket, and its output is the
  responses before that one, each without its last bucket, followed by that response
  as it is. If the responses up to the first one of at most one bucket do not fail,
  list their buckets in increasing order of timestamp, as a date histogram does, and
  each shares its last timestamp with the first of the next, then the output
  timestamps are strictly increasing, so distinct: every bucket timestamp of every
  response is in the output, exactly once, with one value for each.
\<close>

theorem resample_loop_overlap_trim:
  fixes search :: "('t::linorder) \<Rightarrow> error + ('t \<times> 'v) list"
  shows
  "((\<exists>r. resample_loop (read_ts_test search) first [] [] = Some r)
      \<longleftrightarrow> (\<exists>n. length (resp_ts (response (read_ts_test search) first n)) \<le> 1))
   \<and> (resample_loop (read_ts_test search) first [] [] = Some (Inr (ts, vs)) \<longrightarrow>
        (\<exists>n. (\<forall>k<n. 1 < length (resp_ts (response (read_ts_test search) first k)))
           \<and> length (resp_ts (response (read_ts_test search) first n)) \<le> 1
           \<and> ts = stitched (\<lambda>k. resp_ts (response (read_ts_test search) first k)) n
           \<and> vs = stitched (\<lambda>k. resp_vs (response (read_ts_test search) first k)) n))
   \<and> ((\<forall>k<n. 1 < length (resp_ts (response (read_ts_test search) first k)))
       \<and> \<not> isl (response (read_ts_test search) first n)
       \<and> length (resp_ts (response (read_ts_test search) first n)) \<le> 1
       \<and> (\<forall>k<n. resp_ts (response (read_ts_test search) first (Suc k)) \<noteq> []
                  \<and> hd (resp_ts (response (read_ts_test search) first (Suc k)))
                      = last (resp_ts (response (read_ts_test search) first k)))
       \<and> (\<forall>k\<le>n. sorted_wrt (<) (resp_ts (response (read_ts_test search) first k)))
      \<longrightarrow> (\<exists>out_ts out_vs.
              resample_loop (read_ts_test search) first [] [] = Some (Inr (out_ts, out_vs))
            \<and> out_ts = stitched (\<lambda>k. resp_ts (response (read_ts_test search) first k)) n
            \<and> out_vs = stitched (\<lambda>k. resp_vs (response (read_ts_test search) first k)) n
            \<and> sorted_wrt (<) out_ts \<and> distinct out_ts
            \<and> set out_ts = (\<Union>k\<le>n. set (resp_ts (response (read_ts_test search) first k)))
            \<and> (\<forall>t \<in> set out_ts. count_list out_ts t = 1)
            \<and> length out_vs = length out_ts))"
proof (intro conjI impI)
  let ?rt = "read_ts_test search"
  note g = resample_loop_overlap_general [where rt = ?rt and first = first and ts = ts
      and vs = vs and n = n]
  show "(\<exists>r. resample_loop ?rt first [] [] = Some r)
      \<longleftrightarrow> (\<exists>n. length (resp_ts (response ?rt first n)) \<le> 1)"
    unfolding response_stops_read_ts_test [symmetric] by (rule g [THEN conjunct1])
next
  let ?rt = "read_ts_test search"
  assume "resample_loop ?rt first [] [] = Some (Inr (ts, vs))"
  then show "\<exists>n. (\<forall>k<n. 1 < length (resp_ts (response ?rt first k)))
           \<and> length (resp_ts (response ?rt first n)) \<le> 1
           \<and> ts = stitched (\<lambda>k. resp_ts (response ?rt first k)) n
           \<and> vs = stitched (\<lambda>k. resp_vs (response ?rt first k)) n"
    by (rule resample_loop_result)
next
  let ?rt = "read_ts_test search"
  assume a: "(\<forall>k<n. 1 < length (resp_ts (response ?rt first k)))
       \<and> \<not> isl (response ?rt first n)
       \<and> length (resp_ts (response ?rt first n)) \<le> 1
       \<and> (\<forall>k<n. resp_ts (response ?rt first (Suc k)) \<noteq> []
                  \<and> hd (resp_ts (response ?rt first (Suc k))) = last (resp_ts (response ?rt first k)))
       \<and> (\<forall>k\<le>n. sorted_wrt (<) (resp_ts (response ?rt first k)))"
  note a1 = a [THEN conjunct1]
  note a2 = a [THEN conjunct2, THEN conjunct1]
  note a3 = a [THEN conjunct2, THEN conjunct2, THEN conjunct1]
  note a4 = a [THEN conjunct2, THEN conjunct2, THEN conjunct2, THEN conjunct1]
  note a5 = a [THEN conjunct2, THEN conjunct2, THEN conjunct2, THEN conjunct2]
  have h1: "\<forall>k<n. \<exists>nvs nts. response ?rt first k = Inr (nvs, nts) \<and> length nvs = length nts
                  \<and> 1 < length nts"
  proof (intro allI impI)
    fix k assume "k < n"
    with a1 have l: "1 < length (resp_ts (response ?rt first k))" by simp
    then have "\<not> isl (response ?rt first k)" by (rule resp_ts_long_not_isl)
    from response_read_ts_test_buckets [OF this]
    obtain nvs nts where r: "response ?rt first k = Inr (nvs, nts)" "length nvs = length nts"
      "nts = resp_ts (response ?rt first k)"
      by (elim exE conjE)
    from l r(3) have "1 < length nts" by simp
    with r(1,2) show "\<exists>nvs nts. response ?rt first k = Inr (nvs, nts)
        \<and> length nvs = length nts \<and> 1 < length nts"
      by (intro exI conjI)
  qed
  have h2: "\<exists>nvs nts. response ?rt first n = Inr (nvs, nts) \<and> length nvs = length nts
                  \<and> length nts \<le> 1"
  proof -
    from response_read_ts_test_buckets [OF a2]
    obtain nvs nts where r: "response ?rt first n = Inr (nvs, nts)" "length nvs = length nts"
      "nts = resp_ts (response ?rt first n)"
      by (elim exE conjE)
    from a3 r(3) have "length nts \<le> 1" by simp
    with r(1,2) show ?thesis by (intro exI conjI)
  qed
  from resample_loop_overlap_general [where rt = ?rt and first = first and n = n,
      THEN conjunct2, THEN conjunct2, rule_format,
      OF conjI [OF h1 conjI [OF h2 conjI [OF a4 a5]]]]
  show "\<exists>out_ts out_vs.
              resample_loop ?rt first [] [] = Some (Inr (out_ts, out_vs))
            \<and> out_ts = stitched (\<lambda>k. resp_ts (response ?rt first k)) n
            \<and> out_vs = stitched (\<lambda>k. resp_vs (response ?rt first k)) n
            \<and> sorted_wrt (<) out_ts \<and> distinct out_ts
            \<and> set out_ts = (\<Union>k\<le>n. set (resp_ts (response ?rt first k)))
            \<and> (\<forall>t \<in> set out_ts. count_list out_ts t = 1)
            \<and> length out_vs = length out_ts" .
qed

theorem resample_loop_overlap_trim_witness:
  "\<exists>out_ts out_vs.
     resample_loop
       (read_ts_test
         (\<lambda>t. if t = (1 :: nat)
                then Inr (map (\<lambda>b. (b, 100 + b)) [1, 2, 3, 4, 5, 6, 7, 8, 9, 10 :: nat])
              else if t = 10
                then Inr (map (\<lambda>b. (b, 100 + b)) [10, 11, 12, 13, 14, 15, 16, 17, 18])
              else Inr [(18, 118)])) 1 [] []
       = Some (Inr (out_ts, out_vs))
     \<and> out_ts = [1, 2, 3, 4, 5, 6, 7, 8, 9, 10, 11, 12, 13, 14, 15, 16, 17, 18]
     \<and> count_list out_ts 10 = 1 \<and> distinct out_ts"
proof -
  let ?search = "\<lambda>t. if t = (1 :: nat)
                then Inr (map (\<lambda>b. (b, 100 + b)) [1, 2, 3, 4, 5, 6, 7, 8, 9, 10 :: nat])
              else if t = 10
                then Inr (map (\<lambda>b. (b, 100 + b)) [10, 11, 12, 13, 14, 15, 16, 17, 18])
              else Inr [(18, 118 :: nat)]"
  let ?rt = "read_ts_test ?search"
  have r0: "response ?rt 1 0 = Inr ([101, 102, 103, 104, 105, 106, 107, 108, 109, 110],
                                   [1, 2, 3, 4, 5, 6, 7, 8, 9, 10])"
    by (simp add: response_def read_ts_test_def)
  have r1: "response ?rt 1 (Suc 0) = Inr ([110, 111, 112, 113, 114, 115, 116, 117, 118],
                                     [10, 11, 12, 13, 14, 15, 16, 17, 18])"
    by (simp add: response_def read_ts_test_def)
  have r2': "response ?rt 1 (Suc (Suc 0)) = Inr ([118], [18])"
    by (simp add: response_def read_ts_test_def)
  have r2: "response ?rt 1 2 = Inr ([118], [18])"
    using r2' by (simp only: numeral_2_eq_2)
  have two: "k = 0 \<or> k = Suc 0" if "k < 2" for k :: nat using that by auto
  have three: "k = 0 \<or> k = Suc 0 \<or> k = 2" if "k \<le> 2" for k :: nat using that by auto
  have h1: "\<forall>k<2. 1 < length (resp_ts (response ?rt 1 k))"
  proof (intro allI impI)
    fix k :: nat assume "k < 2"
    then consider "k = 0" | "k = Suc 0" using two by blast
    then show "1 < length (resp_ts (response ?rt 1 k))"
    proof cases
      case 1
      show ?thesis unfolding 1 r0 by (simp add: resp_ts_def)
    next
      case 2
      show ?thesis unfolding 2 r1 by (simp add: resp_ts_def)
    qed
  qed
  have h2: "\<not> isl (response ?rt 1 2)" unfolding r2 by simp
  have h2': "length (resp_ts (response ?rt 1 2)) \<le> 1" unfolding r2 by (simp add: resp_ts_def)
  have h3: "\<forall>k<2. resp_ts (response ?rt 1 (Suc k)) \<noteq> []
                  \<and> hd (resp_ts (response ?rt 1 (Suc k))) = last (resp_ts (response ?rt 1 k))"
  proof (intro allI impI)
    fix k :: nat assume "k < 2"
    then consider "k = 0" | "k = Suc 0" using two by blast
    then show "resp_ts (response ?rt 1 (Suc k)) \<noteq> []
                  \<and> hd (resp_ts (response ?rt 1 (Suc k))) = last (resp_ts (response ?rt 1 k))"
    proof cases
      case 1
      show ?thesis unfolding 1 r0 r1 by (simp add: resp_ts_def)
    next
      case 2
      show ?thesis unfolding 2 r1 r2' by (simp add: resp_ts_def)
    qed
  qed
  have h4: "\<forall>k\<le>2. sorted_wrt (<) (resp_ts (response ?rt 1 k))"
  proof (intro allI impI)
    fix k :: nat assume "k \<le> 2"
    then consider "k = 0" | "k = Suc 0" | "k = 2" using three by blast
    then show "sorted_wrt (<) (resp_ts (response ?rt 1 k))"
    proof cases
      case 1
      show ?thesis unfolding 1 r0 by (simp add: resp_ts_def)
    next
      case 2
      show ?thesis unfolding 2 r1 by (simp add: resp_ts_def)
    next
      case 3
      show ?thesis unfolding 3 r2 by (simp add: resp_ts_def)
    qed
  qed
  from resample_loop_overlap_trim [where search = ?search and first = 1 and n = 2,
      THEN conjunct2, THEN conjunct2, rule_format,
      OF conjI [OF h1 conjI [OF h2 conjI [OF h2' conjI [OF h3 h4]]]]]
  obtain out_ts out_vs where o: "resample_loop ?rt 1 [] [] = Some (Inr (out_ts, out_vs))"
    "out_ts = stitched (\<lambda>k. resp_ts (response ?rt 1 k)) 2" "distinct out_ts"
    by (elim exE conjE)
  have "stitched (\<lambda>k. resp_ts (response ?rt 1 k)) 2
      = [1, 2, 3, 4, 5, 6, 7, 8, 9, 10, 11, 12, 13, 14, 15, 16, 17, 18]"
    unfolding stitched_def using r0 r1 r2 by (simp add: resp_ts_def numeral_2_eq_2)
  with o show ?thesis by simp
qed

text \<open>
  \<^verbatim>\<open>read_ts_resampled2\<close> returns the timestamps the loop has gathered and the values
  with their gaps filled by \<^verbatim>\<open>linear_interp\<close>.
\<close>

lemma read_ts_resampled2_buckets:
  "read_ts_resampled2 (Inr first) search = Some (Inr (ts, vs')) \<longleftrightarrow>
     (\<exists>vs. resample_loop (read_ts_test search) first [] [] = Some (Inr (ts, vs))
          \<and> linear_interp vs = Inr vs')"
  by (auto simp: read_ts_resampled2_def split: option.splits sum.splits)

end
